theory Spec2Isabelle
  imports Main "HOL-Library.Sublist"
begin

section \<open>The node model\<close>

text \<open>
  The tree of the query package is a pointer structure: every node holds five links
  (parent, first and last child, previous and next sibling).  Nodes live in a heap, a list
  of node records; a pointer is the index of a node in that list and \<open>None\<close> is the nil
  pointer.  Allocation appends to the heap, so a fresh node has the address
  \<open>length h\<close>.  Dereferencing nil panics in the source; the model returns
  \<open>NilDereference\<close> there.  A loop over a sibling chain that never ends is the value
  \<open>None\<close> of its walk, reported as \<open>NonTermination\<close>.

  The line number annotation of the nodes is left out: no result of the parser depends
  on it.
\<close>

datatype NodeType =
    DocumentNode
  | DeclarationNode
  | ElementNode
  | TextNode
  | CharDataNode
  | CommentNode
  | AttributeNode
  | NotationNode
  | ProcessingInstruction

record Name =
  Space :: string
  Local :: string

record Attr =
  AttrName :: Name
  Value :: string
  AttrNamespaceURI :: string

record ProcInstData =
  Target :: string
  Inst :: string

record Node =
  Parent :: "nat option"
  FirstChild :: "nat option"
  LastChild :: "nat option"
  PrevSibling :: "nat option"
  NextSibling :: "nat option"
  Type :: NodeType
  Data :: string
  Prefix :: string
  NamespaceURI :: string
  Attrs :: "Attr list"
  level :: int
  ProcInst :: "ProcInstData option"

type_synonym heap = "Node list"

datatype error =
    EOF
  | TokenError string
  | NamespaceMissing string
  | InvalidXMLDocument
  | InvalidContentType string
  | HTTPError string
  | NilDereference
  | NonTermination

text \<open>Field assignments through a pointer, \<open>x.Parent = v\<close> and the like.\<close>

definition setParent :: "heap \<Rightarrow> nat \<Rightarrow> nat option \<Rightarrow> heap" where
  "setParent h a v = h[a := (h ! a)\<lparr>Parent := v\<rparr>]"

definition setFirstChild :: "heap \<Rightarrow> nat \<Rightarrow> nat option \<Rightarrow> heap" where
  "setFirstChild h a v = h[a := (h ! a)\<lparr>FirstChild := v\<rparr>]"

definition setLastChild :: "heap \<Rightarrow> nat \<Rightarrow> nat option \<Rightarrow> heap" where
  "setLastChild h a v = h[a := (h ! a)\<lparr>LastChild := v\<rparr>]"

definition setPrevSibling :: "heap \<Rightarrow> nat \<Rightarrow> nat option \<Rightarrow> heap" where
  "setPrevSibling h a v = h[a := (h ! a)\<lparr>PrevSibling := v\<rparr>]"

definition setNextSibling :: "heap \<Rightarrow> nat \<Rightarrow> nat option \<Rightarrow> heap" where
  "setNextSibling h a v = h[a := (h ! a)\<lparr>NextSibling := v\<rparr>]"

subsection \<open>Attaching and detaching\<close>

text \<open>
  \<open>addChild\<close>: the node becomes the last child of \<open>parent\<close>.  When the parent has a
  first child, the source dereferences \<open>parent.LastChild\<close>.
\<close>

definition addChild :: "heap \<Rightarrow> nat \<Rightarrow> nat \<Rightarrow> error + heap" where
  "addChild h parent n =
     (let h1 = setParent h n (Some parent) in
      case FirstChild (h1 ! parent) of
        None \<Rightarrow> Inr (setLastChild (setFirstChild h1 parent (Some n)) parent (Some n))
      | Some _ \<Rightarrow>
          (case LastChild (h1 ! parent) of
             None \<Rightarrow> Inl NilDereference
           | Some l \<Rightarrow>
               (let h2 = setNextSibling h1 l (Some n);
                    h3 = setPrevSibling h2 n (LastChild (h2 ! parent))
                in Inr (setLastChild h3 parent (Some n)))))"

text \<open>
  \<open>addSibling\<close> first walks from the given node to the end of its sibling chain
  (\<open>for t := sibling.NextSibling; t != nil; t = t.NextSibling\<close>).  On a cyclic chain the
  walk does not return.
\<close>

partial_function (option) lastSibling :: "heap \<Rightarrow> nat \<Rightarrow> nat option" where
  "lastSibling h s =
     (case NextSibling (h ! s) of None \<Rightarrow> Some s | Some t \<Rightarrow> lastSibling h t)"

declare lastSibling.simps [code]

definition addSibling :: "heap \<Rightarrow> nat \<Rightarrow> nat \<Rightarrow> error + heap" where
  "addSibling h sibling n =
     (case lastSibling h sibling of
        None \<Rightarrow> Inl NonTermination
      | Some s \<Rightarrow>
          (let h1 = setParent h n (Parent (h ! s));
               h2 = setNextSibling h1 s (Some n);
               h3 = setPrevSibling h2 n (Some s)
           in case Parent (h3 ! s) of
                None \<Rightarrow> Inr h3
              | Some p \<Rightarrow> Inr (setLastChild h3 p (Some n))))"

text \<open>
  \<open>remove\<close> (exported as \<open>RemoveFromTree\<close>): detaches a node and its subtree from the
  tree it is in.  The four cases of the source are kept, with their dereferences of the
  neighbours.
\<close>

definition remove :: "heap \<Rightarrow> nat \<Rightarrow> error + heap" where
  "remove h n =
     (case Parent (h ! n) of
        None \<Rightarrow> Inr h
      | Some p \<Rightarrow>
          (let r =
             (if FirstChild (h ! p) = Some n then
                (if LastChild (h ! p) = Some n then
                   Inr (setLastChild (setFirstChild h p None) p None)
                 else
                   (let h1 = setFirstChild h p (NextSibling (h ! n)) in
                    case NextSibling (h1 ! n) of
                      None \<Rightarrow> Inl NilDereference
                    | Some nx \<Rightarrow> Inr (setPrevSibling h1 nx None)))
              else
                (if LastChild (h ! p) = Some n then
                   (let h1 = setLastChild h p (PrevSibling (h ! n)) in
                    case PrevSibling (h1 ! n) of
                      None \<Rightarrow> Inl NilDereference
                    | Some pv \<Rightarrow> Inr (setNextSibling h1 pv None))
                 else
                   (case PrevSibling (h ! n) of
                      None \<Rightarrow> Inl NilDereference
                    | Some pv \<Rightarrow>
                        (let h1 = setNextSibling h pv (NextSibling (h ! n)) in
                         case NextSibling (h1 ! n) of
                           None \<Rightarrow> Inl NilDereference
                         | Some nx \<Rightarrow> Inr (setPrevSibling h1 nx (PrevSibling (h1 ! n)))))))
           in case r of
                Inl e \<Rightarrow> Inl e
              | Inr h2 \<Rightarrow>
                  Inr (setNextSibling (setPrevSibling (setParent h2 n None) n None) n None)))"

subsection \<open>The shape of a well-linked child list\<close>

text \<open>
  The invariant of the node model, as the data model states it: the children of a node
  form a chain from \<open>FirstChild\<close> to \<open>LastChild\<close>, linked symmetrically by
  \<open>NextSibling\<close> and \<open>PrevSibling\<close>, and every member names the node as its parent.
  \<open>seg h pv xs nx\<close> says that \<open>xs\<close> is a run of siblings entered from \<open>pv\<close> and left
  to \<open>nx\<close>.
\<close>

fun seg :: "heap \<Rightarrow> nat option \<Rightarrow> nat list \<Rightarrow> nat option \<Rightarrow> bool" where
  "seg h pv [] nx = True"
| "seg h pv [x] nx = (x < length h \<and> PrevSibling (h ! x) = pv \<and> NextSibling (h ! x) = nx)"
| "seg h pv (x # y # ys) nx =
     (x < length h \<and> PrevSibling (h ! x) = pv \<and> NextSibling (h ! x) = Some y \<and>
      seg h (Some x) (y # ys) nx)"

definition childrenOf :: "heap \<Rightarrow> nat \<Rightarrow> nat list \<Rightarrow> bool" where
  "childrenOf h p cs \<longleftrightarrow>
     p < length h \<and> p \<notin> set cs \<and> distinct cs \<and> seg h None cs None \<and>
     (\<forall>c \<in> set cs. Parent (h ! c) = Some p) \<and>
     FirstChild (h ! p) = (if cs = [] then None else Some (hd cs)) \<and>
     LastChild (h ! p) = (if cs = [] then None else Some (last cs))"

text \<open>
  \<open>spliced h p n h'\<close>: heap \<open>h'\<close> is \<open>h\<close> with the child \<open>n\<close> of \<open>p\<close> cut out of its
  chain, link by link; no other field of any node differs.
\<close>

definition spliced :: "heap \<Rightarrow> nat \<Rightarrow> nat \<Rightarrow> heap \<Rightarrow> bool" where
  "spliced h p n h' \<longleftrightarrow>
     length h' = length h \<and>
     (\<forall>x. Parent (h' ! x) = (if x = n then None else Parent (h ! x)) \<and>
          FirstChild (h' ! x) =
            (if x = p \<and> FirstChild (h ! p) = Some n then NextSibling (h ! n)
             else FirstChild (h ! x)) \<and>
          LastChild (h' ! x) =
            (if x = p \<and> LastChild (h ! p) = Some n then PrevSibling (h ! n)
             else LastChild (h ! x)) \<and>
          PrevSibling (h' ! x) =
            (if x = n then None
             else if NextSibling (h ! n) = Some x then PrevSibling (h ! n)
             else PrevSibling (h ! x)) \<and>
          NextSibling (h' ! x) =
            (if x = n then None
             else if PrevSibling (h ! n) = Some x then NextSibling (h ! n)
             else NextSibling (h ! x)) \<and>
          Type (h' ! x) = Type (h ! x) \<and> Data (h' ! x) = Data (h ! x) \<and>
          Prefix (h' ! x) = Prefix (h ! x) \<and> NamespaceURI (h' ! x) = NamespaceURI (h ! x) \<and>
          Attrs (h' ! x) = Attrs (h ! x) \<and> level (h' ! x) = level (h ! x) \<and>
          ProcInst (h' ! x) = ProcInst (h ! x))"

text \<open>A node as the composite literal \<open>&Node{Type: t, Data: d, level: l}\<close> builds it.\<close>

definition newNode :: "NodeType \<Rightarrow> string \<Rightarrow> int \<Rightarrow> Node" where
  "newNode t d l =
     \<lparr>Parent = None, FirstChild = None, LastChild = None, PrevSibling = None,
      NextSibling = None, Type = t, Data = d, Prefix = [], NamespaceURI = [], Attrs = [],
      level = l, ProcInst = None\<rparr>"

text \<open>
  A small tree for the examples: a document (address 0) with the element children
  \<open>a\<close>, \<open>b\<close>, \<open>c\<close> (addresses 1, 2, 3), and a text node (address 4) under \<open>b\<close>.
\<close>

definition exampleHeap :: heap where
  "exampleHeap =
     [(newNode DocumentNode [] 0)\<lparr>FirstChild := Some 1, LastChild := Some 3\<rparr>,
      (newNode ElementNode ''a'' 1)\<lparr>Parent := Some 0, NextSibling := Some 2\<rparr>,
      (newNode ElementNode ''b'' 1)\<lparr>Parent := Some 0, FirstChild := Some 4, LastChild := Some 4,
         PrevSibling := Some 1, NextSibling := Some 3\<rparr>,
      (newNode ElementNode ''c'' 1)\<lparr>Parent := Some 0, PrevSibling := Some 2\<rparr>,
      (newNode TextNode ''t'' 2)\<lparr>Parent := Some 2\<rparr>]"

section \<open>The tokenizer and the lookahead cache\<close>

text \<open>
  The tokenizer (\<open>encoding/xml\<close>) is an external collaborator.  Its output is the input of
  the model: the tokens it returns one after the other, each with the raw bytes the decoder
  read while producing it, and the error it reports once the tokens are used up
  (\<open>EOF\<close> at the normal end of input, a \<open>TokenError\<close> otherwise).
\<close>

datatype xml_Attr = xml_Attr (attName: Name) (attValue: string)

datatype Token =
    xml_StartElement Name "xml_Attr list"
  | xml_EndElement Name
  | xml_CharData string
  | xml_Comment string
  | xml_ProcInst string string
  | xml_Directive string

record decoder =
  tokens :: "(Token \<times> string) list"
  final :: error
  Strict :: bool

text \<open>
  The cached reader records the bytes read between \<open>StartCaching\<close> and \<open>StopCaching\<close>, up
  to its capacity of 4096 bytes; bytes beyond the capacity are dropped.
\<close>

definition cacheCap :: nat where
  "cacheCap = 4096"

definition Cache :: "string \<Rightarrow> string" where
  "Cache raw = take cacheCap raw"

text \<open>
  Modelled from the spec: the reader's \<open>CacheWithLimit\<close> is not among the sources.  It
  returns the captured bytes, at most the first \<open>n\<close> of them.
\<close>

definition CacheWithLimit :: "string \<Rightarrow> int \<Rightarrow> string" where
  "CacheWithLimit cache n = take (nat n) cache"

section \<open>The tree-building parser\<close>

text \<open>
  A compiled path expression is used through \<open>QuerySelector\<close> only, which evaluates it on
  the tree below a top node and returns the first node selected, or nil.  The evaluator is
  external; an expression is modelled by the selection it computes.
\<close>

type_synonym Expr = "heap \<Rightarrow> nat \<Rightarrow> nat option"

definition QuerySelector :: "heap \<Rightarrow> nat \<Rightarrow> Expr \<Rightarrow> nat option" where
  "QuerySelector h t e = e h t"

record xmlnsPrefix =
  ns_name :: string
  ns_level :: int

record parser =
  p_decoder :: decoder
  p_heap :: heap
  p_doc :: nat
  p_level :: int
  p_prev :: "nat option"
  p_streamElementXPath :: "Expr option"
  p_streamElementFilter :: "Expr option"
  p_streamNode :: "nat option"
  p_streamNodePrev :: "nat option"
  p_cache :: string
  p_once :: bool
  p_space2prefix :: "string \<rightharpoonup> xmlnsPrefix"

text \<open>\<open>createParser\<close>: a fresh document node, depth 0, the cursor on the document.\<close>

definition createParser :: "decoder \<Rightarrow> parser" where
  "createParser d =
     \<lparr>p_decoder = d, p_heap = [newNode DocumentNode [] 0], p_doc = 0, p_level = 0,
      p_prev = Some 0, p_streamElementXPath = None, p_streamElementFilter = None,
      p_streamNode = None, p_streamNodePrev = None, p_cache = [], p_once = False,
      p_space2prefix = Map.empty\<rparr>"

text \<open>The first call of \<open>parse\<close> binds the XML namespace to the prefix \<open>xml\<close> (\<open>p.once.Do\<close>).\<close>

definition once :: "parser \<Rightarrow> parser" where
  "once p =
     (if p_once p then p
      else p\<lparr>p_once := True,
             p_space2prefix :=
               [''http://www.w3.org/XML/1998/namespace'' \<mapsto> \<lparr>ns_name = ''xml'', ns_level = 0\<rparr>]\<rparr>)"

subsection \<open>Depth-relative attachment\<close>

text \<open>
  Every token that creates a node attaches it by the same three-way comparison of the
  parser's depth with the level of the cursor node; the source repeats the block in each
  case of the token switch.  In the third branch the loop
  \<open>for i := p.prev.level - p.level; i > 1; i--\<close> moves the cursor up, and the node becomes a
  sibling of the cursor's parent.
\<close>

fun walkUp :: "heap \<Rightarrow> nat \<Rightarrow> nat option \<Rightarrow> error + nat option" where
  "walkUp h 0 pv = Inr pv"
| "walkUp h (Suc k) pv =
     (case pv of None \<Rightarrow> Inl NilDereference | Some a \<Rightarrow> walkUp h k (Parent (h ! a)))"

definition attach :: "parser \<Rightarrow> nat \<Rightarrow> error + parser" where
  "attach p n =
     (case p_prev p of
        None \<Rightarrow> Inl NilDereference
      | Some pv \<Rightarrow>
          (let lv = level (p_heap p ! pv) in
           if p_level p = lv then
             (case addSibling (p_heap p) pv n of
                Inl e \<Rightarrow> Inl e
              | Inr h \<Rightarrow> Inr (p\<lparr>p_heap := h\<rparr>))
           else if p_level p > lv then
             (case addChild (p_heap p) pv n of
                Inl e \<Rightarrow> Inl e
              | Inr h \<Rightarrow> Inr (p\<lparr>p_heap := h\<rparr>))
           else
             (case walkUp (p_heap p) (nat (lv - p_level p - 1)) (Some pv) of
                Inl e \<Rightarrow> Inl e
              | Inr None \<Rightarrow> Inl NilDereference
              | Inr (Some a) \<Rightarrow>
                  (case Parent (p_heap p ! a) of
                     None \<Rightarrow> Inl NilDereference
                   | Some q \<Rightarrow>
                       (case addSibling (p_heap p) q n of
                          Inl e \<Rightarrow> Inl e
                        | Inr h \<Rightarrow> Inr (p\<lparr>p_heap := h, p_prev := Some a\<rparr>))))))"

text \<open>The outcome of one token: the loop goes on, or \<open>parse\<close> returns a node or an error.\<close>

datatype outcome =
    Continue parser int
  | Return "error + nat" parser

text \<open>Allocates the node, then attaches it; used by the cases that only add a node.\<close>

definition addNode :: "parser \<Rightarrow> Node \<Rightarrow> int \<Rightarrow> outcome" where
  "addNode p node counter =
     (let n = length (p_heap p); p1 = p\<lparr>p_heap := p_heap p @ [node]\<rparr> in
      case attach p1 n of
        Inl e \<Rightarrow> Return (Inl e) p1
      | Inr p2 \<Rightarrow> Continue p2 counter)"

subsection \<open>Start tags\<close>

definition declAttributes :: "Attr list" where
  "declAttributes =
     [\<lparr>AttrName = \<lparr>Space = [], Local = ''version''\<rparr>, Value = ''1.0'', AttrNamespaceURI = []\<rparr>]"

text \<open>The missing declaration: at depth 0 a start tag first adds a declaration node.\<close>

definition missingDeclaration :: "parser \<Rightarrow> error + parser" where
  "missingDeclaration p =
     (if p_level p = 0 then
        (let node = (newNode DeclarationNode ''xml'' 1)\<lparr>Attrs := declAttributes\<rparr>;
             n = length (p_heap p);
             h = p_heap p @ [node]
         in case p_prev p of
              None \<Rightarrow> Inl NilDereference
            | Some pv \<Rightarrow>
                (case addChild h pv n of
                   Inl e \<Rightarrow> Inl e
                 | Inr h' \<Rightarrow> Inr (p\<lparr>p_heap := h', p_level := 1, p_prev := Some n\<rparr>)))
      else Inr p)"

text \<open>The namespace declarations among the attributes of a start tag, one attribute at a time.\<close>

definition bindNamespace :: "int \<Rightarrow> (string \<rightharpoonup> xmlnsPrefix) \<Rightarrow> xml_Attr \<Rightarrow> (string \<rightharpoonup> xmlnsPrefix)" where
  "bindNamespace lv m att =
     (if Local (attName att) = ''xmlns'' then
        (case m (attValue att) of
           None \<Rightarrow> m(attValue att \<mapsto> \<lparr>ns_name = [], ns_level = lv\<rparr>)
         | Some pfx \<Rightarrow>
             (if ns_level pfx \<ge> lv then m(attValue att \<mapsto> \<lparr>ns_name = [], ns_level = lv\<rparr>)
              else m))
      else if Space (attName att) = ''xmlns'' then
        m(attValue att \<mapsto> \<lparr>ns_name = Local (attName att), ns_level = lv\<rparr>)
      else m)"

definition bindNamespaces :: "int \<Rightarrow> (string \<rightharpoonup> xmlnsPrefix) \<Rightarrow> xml_Attr list \<Rightarrow> (string \<rightharpoonup> xmlnsPrefix)" where
  "bindNamespaces lv m atts = foldl (bindNamespace lv) m atts"

definition resolveAttr :: "(string \<rightharpoonup> xmlnsPrefix) \<Rightarrow> xml_Attr \<Rightarrow> Attr" where
  "resolveAttr m att =
     \<lparr>AttrName =
        (case m (Space (attName att)) of
           None \<Rightarrow> attName att
         | Some pfx \<Rightarrow> (attName att)\<lparr>Space := ns_name pfx\<rparr>),
      Value = attValue att,
      AttrNamespaceURI = Space (attName att)\<rparr>"

text \<open>
  The literal prefix of the element is recovered from the raw bytes: the node gets the bound
  prefix when the cached bytes begin with \<open>prefix:name\<close> or \<open><prefix:name\<close>.
\<close>

definition recoverPrefix :: "parser \<Rightarrow> nat \<Rightarrow> heap" where
  "recoverPrefix p n =
     (let h = p_heap p; node = h ! n in
      if NamespaceURI node \<noteq> [] then
        (case p_space2prefix p (NamespaceURI node) of
           None \<Rightarrow> h
         | Some v \<Rightarrow>
             (let cached = CacheWithLimit (p_cache p)
                             (int (length (ns_name v)) + int (length (Data node)) + 2)
              in if prefix (ns_name v @ '':'' @ Data node) cached \<or>
                    prefix (''<'' @ ns_name v @ '':'' @ Data node) cached
                 then h[n := node\<lparr>Prefix := ns_name v\<rparr>]
                 else h))
      else h)"

text \<open>
  Streaming: the first element for which the target expression selects something in the
  document becomes the candidate; while a candidate is open, start tags are counted.
\<close>

definition streamMark :: "parser \<Rightarrow> nat \<Rightarrow> int \<Rightarrow> parser \<times> int" where
  "streamMark p n counter =
     (case p_streamElementXPath p of
        None \<Rightarrow> (p, counter)
      | Some xp \<Rightarrow>
          (case p_streamNode p of
             None \<Rightarrow>
               (if QuerySelector (p_heap p) (p_doc p) xp \<noteq> None
                then (p\<lparr>p_streamNode := Some n, p_streamNodePrev := p_prev p\<rparr>, 1)
                else (p, counter))
           | Some _ \<Rightarrow> (p, counter + 1)))"

definition startElement :: "Name \<Rightarrow> xml_Attr list \<Rightarrow> parser \<Rightarrow> int \<Rightarrow> outcome" where
  "startElement nm atts p0 counter =
     (case missingDeclaration p0 of
        Inl e \<Rightarrow> Return (Inl e) p0
      | Inr p1 \<Rightarrow>
          (let m = bindNamespaces (p_level p1) (p_space2prefix p1) atts;
               p2 = p1\<lparr>p_space2prefix := m\<rparr>
           in if Space nm \<noteq> [] \<and> m (Space nm) = None \<and> Strict (p_decoder p2)
              then Return (Inl (NamespaceMissing (Space nm))) p2
              else
                (let node = (newNode ElementNode (Local nm) (p_level p2))
                              \<lparr>NamespaceURI := Space nm, Attrs := map (resolveAttr m) atts\<rparr>;
                     n = length (p_heap p2);
                     p3 = p2\<lparr>p_heap := p_heap p2 @ [node]\<rparr>
                 in case attach p3 n of
                      Inl e \<Rightarrow> Return (Inl e) p3
                    | Inr p4 \<Rightarrow>
                        (let p5 = p4\<lparr>p_heap := recoverPrefix p4 n\<rparr>;
                             (p6, counter') = streamMark p5 n counter
                         in Continue (p6\<lparr>p_prev := Some n, p_level := p_level p6 + 1\<rparr>)
                              counter'))))"

subsection \<open>End tags\<close>

text \<open>
  An end tag only lowers the depth.  In streaming mode it closes the candidate when the
  counter of open tags reaches 0: the candidate is returned if no filter is set or the
  filter selects something in the document; otherwise it is removed from the tree and the
  cursor goes back to the node saved when the candidate was found.
\<close>

definition endElement :: "parser \<Rightarrow> int \<Rightarrow> outcome" where
  "endElement p0 counter =
     (let p = p0\<lparr>p_level := p_level p0 - 1\<rparr> in
      case p_streamNode p of
        None \<Rightarrow> Continue p counter
      | Some sn \<Rightarrow>
          (let c = counter - 1 in
           if c = 0 then
             (if (case p_streamElementFilter p of
                    None \<Rightarrow> True
                  | Some f \<Rightarrow> QuerySelector (p_heap p) (p_doc p) f \<noteq> None)
              then Return (Inr sn) p
              else
                (case remove (p_heap p) sn of
                   Inl e \<Rightarrow> Return (Inl e) p
                 | Inr h \<Rightarrow>
                     Continue (p\<lparr>p_heap := h, p_prev := p_streamNodePrev p,
                                 p_streamNode := None, p_streamNodePrev := None\<rparr>) c))
           else Continue p c))"

subsection \<open>Character data, comments and directives\<close>

text \<open>
  \<open>bytes.ToUpper\<close> on the cached bytes.  Only the comparison with the two ASCII markers
  below uses the result, and no character outside ASCII has one of their letters as its
  upper case, so mapping the ASCII letters byte by byte decides the comparison as the
  source does.
\<close>

definition toUpper :: "char \<Rightarrow> char" where
  "toUpper c =
     (case map_of (zip ''abcdefghijklmnopqrstuvwxyz'' ''ABCDEFGHIJKLMNOPQRSTUVWXYZ'') c of
        None \<Rightarrow> c
      | Some u \<Rightarrow> u)"

definition ToUpper :: "string \<Rightarrow> string" where
  "ToUpper s = map toUpper s"

definition charDataType :: "string \<Rightarrow> NodeType" where
  "charDataType cache =
     (let cached = ToUpper (CacheWithLimit cache 9) in
      if prefix ''<![CDATA['' cached \<or> prefix ''![CDATA['' cached then CharDataNode
      else TextNode)"

definition charData :: "string \<Rightarrow> parser \<Rightarrow> int \<Rightarrow> outcome" where
  "charData tok p counter =
     addNode p (newNode (charDataType (p_cache p)) tok (p_level p)) counter"

definition comment :: "string \<Rightarrow> parser \<Rightarrow> int \<Rightarrow> outcome" where
  "comment tok p counter = addNode p (newNode CommentNode tok (p_level p)) counter"

definition directive :: "string \<Rightarrow> parser \<Rightarrow> int \<Rightarrow> outcome" where
  "directive tok p counter = addNode p (newNode NotationNode tok (p_level p)) counter"

subsection \<open>Processing instructions\<close>

text \<open>
  The string functions of the source, on byte strings.  \<open>strings.TrimSpace\<close> removes the
  leading and the trailing white space runes, as Unicode defines them; in a byte string
  these are the UTF-8 encodings below (U+0009 to U+000D, U+0020, U+0085, U+00A0, U+1680,
  U+2000 to U+200A, U+2028, U+2029, U+202F, U+205F, U+3000).  An encoding that ends the
  string is its last rune, and one that begins it is its first.  \<open>strings.Trim\<close> is used with
  sets of ASCII characters only, which are single bytes.
\<close>

fun Split :: "char \<Rightarrow> string \<Rightarrow> string list" where
  "Split sep [] = [[]]"
| "Split sep (c # cs) =
     (if c = sep then [] # Split sep cs
      else (c # hd (Split sep cs)) # tl (Split sep cs))"

definition spaceRunes :: "string list" where
  "spaceRunes =
     [[CHR 0x09], [CHR 0x0A], [CHR 0x0B], [CHR 0x0C], [CHR 0x0D], [CHR 0x20],
      [CHR 0xC2, CHR 0x85], [CHR 0xC2, CHR 0xA0], [CHR 0xE1, CHR 0x9A, CHR 0x80],
      [CHR 0xE2, CHR 0x80, CHR 0x80], [CHR 0xE2, CHR 0x80, CHR 0x81],
      [CHR 0xE2, CHR 0x80, CHR 0x82], [CHR 0xE2, CHR 0x80, CHR 0x83],
      [CHR 0xE2, CHR 0x80, CHR 0x84], [CHR 0xE2, CHR 0x80, CHR 0x85],
      [CHR 0xE2, CHR 0x80, CHR 0x86], [CHR 0xE2, CHR 0x80, CHR 0x87],
      [CHR 0xE2, CHR 0x80, CHR 0x88], [CHR 0xE2, CHR 0x80, CHR 0x89],
      [CHR 0xE2, CHR 0x80, CHR 0x8A], [CHR 0xE2, CHR 0x80, CHR 0xA8],
      [CHR 0xE2, CHR 0x80, CHR 0xA9], [CHR 0xE2, CHR 0x80, CHR 0xAF],
      [CHR 0xE2, CHR 0x81, CHR 0x9F], [CHR 0xE3, CHR 0x80, CHR 0x80]]"

text \<open>The number of bytes of the white space rune that begins, or ends, a string; 0 if none.\<close>

definition spaceAtStart :: "string \<Rightarrow> nat" where
  "spaceAtStart s = (case find (\<lambda>r. prefix r s) spaceRunes of None \<Rightarrow> 0 | Some r \<Rightarrow> length r)"

definition spaceAtEnd :: "string \<Rightarrow> nat" where
  "spaceAtEnd s = (case find (\<lambda>r. suffix r s) spaceRunes of None \<Rightarrow> 0 | Some r \<Rightarrow> length r)"

function trimLeftSpace :: "string \<Rightarrow> string" where
  "trimLeftSpace s =
     (if spaceAtStart s = 0 then s else trimLeftSpace (drop (spaceAtStart s) s))"
  by pat_completeness auto
termination
proof (relation "measure length")
  show "wf (measure length)" by simp
next
  fix s :: string
  assume a: "spaceAtStart s \<noteq> 0"
  have "s \<noteq> []"
  proof
    assume "s = []"
    then have "spaceAtStart s = 0" by (simp add: spaceAtStart_def spaceRunes_def)
    with a show False by simp
  qed
  with a show "(drop (spaceAtStart s) s, s) \<in> measure length" by simp
qed

function trimRightSpace :: "string \<Rightarrow> string" where
  "trimRightSpace s =
     (if spaceAtEnd s = 0 then s else trimRightSpace (take (length s - spaceAtEnd s) s))"
  by pat_completeness auto
termination
proof (relation "measure length")
  show "wf (measure length)" by simp
next
  fix s :: string
  assume a: "spaceAtEnd s \<noteq> 0"
  have "s \<noteq> []"
  proof
    assume "s = []"
    then have "spaceAtEnd s = 0" by (simp add: spaceAtEnd_def spaceRunes_def)
    with a show False by simp
  qed
  with a show "(take (length s - spaceAtEnd s) s, s) \<in> measure length" by simp
qed

declare trimLeftSpace.simps [simp del]

declare trimRightSpace.simps [simp del]

definition Trim :: "(char \<Rightarrow> bool) \<Rightarrow> string \<Rightarrow> string" where
  "Trim cutset s = rev (dropWhile cutset (rev (dropWhile cutset s)))"

definition TrimSpace :: "string \<Rightarrow> string" where
  "TrimSpace s = trimRightSpace (trimLeftSpace s)"

definition Index :: "string \<Rightarrow> char \<Rightarrow> int" where
  "Index s c = (if c \<in> set s then int (length (takeWhile (\<lambda>x. x \<noteq> c) s)) else - 1)"

text \<open>\<open>addAttr\<close>: a key \<open>space:local\<close> is split at its first colon.\<close>

definition addAttr :: "Node \<Rightarrow> string \<Rightarrow> string \<Rightarrow> Node" where
  "addAttr n key val =
     (let i = Index key CHR '':'';
          attr =
            (if i > 0 then
               \<lparr>AttrName = \<lparr>Space = take (nat i) key, Local = drop (nat i + 1) key\<rparr>,
                Value = val, AttrNamespaceURI = []\<rparr>
             else \<lparr>AttrName = \<lparr>Space = [], Local = key\<rparr>, Value = val, AttrNamespaceURI = []\<rparr>)
      in n\<lparr>Attrs := Attrs n @ [attr]\<rparr>)"

definition addPair :: "Node \<Rightarrow> string \<Rightarrow> Node" where
  "addPair node pair0 =
     (let pair = TrimSpace pair0; i = Index pair CHR ''='' in
      if i > 0 then
        addAttr node (take (nat i) pair)
          (Trim (\<lambda>c. c = CHR 0x22 \<or> c = CHR 0x27) (drop (nat i + 1) pair))
      else node)"

definition procInst :: "string \<Rightarrow> string \<Rightarrow> parser \<Rightarrow> int \<Rightarrow> outcome" where
  "procInst target inst p0 counter =
     (case p_prev p0 of
        None \<Rightarrow> Return (Inl NilDereference) p0
      | Some pv \<Rightarrow>
          (let p = (if \<not> (Type (p_heap p0 ! pv) = DeclarationNode \<or>
                          Type (p_heap p0 ! pv) = ProcessingInstruction)
                    then p0\<lparr>p_level := p_level p0 + 1\<rparr> else p0);
               node0 = foldl addPair (newNode DeclarationNode target (p_level p))
                         (Split CHR '' '' inst);
               node = (if target \<noteq> ''xml''
                       then node0\<lparr>Type := ProcessingInstruction,
                                  ProcInst := Some \<lparr>Target = target, Inst = TrimSpace inst\<rparr>\<rparr>
                       else node0);
               n = length (p_heap p);
               p1 = p\<lparr>p_heap := p_heap p @ [node]\<rparr>
           in case attach p1 n of
                Inl e \<Rightarrow> Return (Inl e) p1
              | Inr p2 \<Rightarrow> Continue (p2\<lparr>p_prev := Some n\<rparr>) counter))"

subsection \<open>The token loop\<close>

fun step :: "Token \<Rightarrow> parser \<Rightarrow> int \<Rightarrow> outcome" where
  "step (xml_StartElement nm atts) p c = startElement nm atts p c"
| "step (xml_EndElement nm) p c = endElement p c"
| "step (xml_CharData tok) p c = charData tok p c"
| "step (xml_Comment tok) p c = comment tok p c"
| "step (xml_ProcInst target inst) p c = procInst target inst p c"
| "step (xml_Directive tok) p c = directive tok p c"

text \<open>
  The loop of \<open>parse\<close>: fetch a token while caching the bytes read, return the tokenizer's
  error if there is one, otherwise handle the token.  The loop runs over the tokens that
  are left; the counter of open tags is a local variable of \<open>parse\<close> and starts at 0 in
  every call.
\<close>

fun parseLoop :: "(Token \<times> string) list \<Rightarrow> parser \<Rightarrow> int \<Rightarrow> (error + nat) \<times> parser \<times> (Token \<times> string) list" where
  "parseLoop [] p c = (Inl (final (p_decoder p)), p, [])"
| "parseLoop ((tok, raw) # rest) p c =
     (case step tok (p\<lparr>p_cache := Cache raw\<rparr>) c of
        Continue p' c' \<Rightarrow> parseLoop rest p' c'
      | Return r p' \<Rightarrow> (r, p', rest))"

definition parse :: "parser \<Rightarrow> (error + nat) \<times> parser" where
  "parse p0 =
     (let p = once p0;
          (r, p', rest) = parseLoop (tokens (p_decoder p)) p 0
      in (r, p'\<lparr>p_decoder := (p_decoder p')\<lparr>tokens := rest\<rparr>\<rparr>))"

section \<open>Full-document parsing\<close>

text \<open>
  \<open>ParseWithOptions\<close> calls \<open>parse\<close> until it reports an error
  (\<open>for err == nil { _, err = p.parse() }\<close>).  At end of input the document must hold an
  element among the children of the document node or of its following siblings.
  The options set the decoder's mode; line numbers are not modelled.
\<close>

partial_function (option) parseUntilError :: "parser \<Rightarrow> (error \<times> parser) option" where
  "parseUntilError p =
     (case parse p of
        (Inl e, p') \<Rightarrow> Some (e, p')
      | (Inr n, p') \<Rightarrow> parseUntilError p')"

declare parseUntilError.simps [code]

partial_function (option) hasElementFrom :: "heap \<Rightarrow> nat option \<Rightarrow> bool option" where
  "hasElementFrom h node =
     (case node of
        None \<Rightarrow> Some False
      | Some a \<Rightarrow>
          (if Type (h ! a) = ElementNode then Some True
           else hasElementFrom h (NextSibling (h ! a))))"

declare hasElementFrom.simps [code]

partial_function (option) validFrom :: "heap \<Rightarrow> nat option \<Rightarrow> bool \<Rightarrow> bool option" where
  "validFrom h doc valid =
     (case doc of
        None \<Rightarrow> Some valid
      | Some d \<Rightarrow>
          (case hasElementFrom h (FirstChild (h ! d)) of
             None \<Rightarrow> None
           | Some b \<Rightarrow> validFrom h (NextSibling (h ! d)) (valid \<or> b)))"

declare validFrom.simps [code]

record DecoderOptions =
  optStrict :: bool

record ParserOptions =
  Decoder :: "DecoderOptions option"

definition apply_options :: "ParserOptions \<Rightarrow> parser \<Rightarrow> parser" where
  "apply_options options p =
     (case Decoder options of
        None \<Rightarrow> p
      | Some d \<Rightarrow> p\<lparr>p_decoder := (p_decoder p)\<lparr>Strict := optStrict d\<rparr>\<rparr>)"

text \<open>
  The reader of the source is the token stream and its final error here; a new decoder is
  strict.  The result is the document node with the heap it lives in.
\<close>

definition newDecoder :: "(Token \<times> string) list \<Rightarrow> error \<Rightarrow> decoder" where
  "newDecoder ts e = \<lparr>tokens = ts, final = e, Strict = True\<rparr>"

definition ParseWithOptions :: "(Token \<times> string) list \<Rightarrow> error \<Rightarrow> ParserOptions \<Rightarrow> error + (nat \<times> heap)" where
  "ParseWithOptions ts e options =
     (case parseUntilError (apply_options options (createParser (newDecoder ts e))) of
        None \<Rightarrow> Inl NonTermination
      | Some (err, p) \<Rightarrow>
          (if err = EOF then
             (case validFrom (p_heap p) (Some (p_doc p)) False of
                None \<Rightarrow> Inl NonTermination
              | Some valid \<Rightarrow>
                  (if \<not> valid then Inl InvalidXMLDocument else Inr (p_doc p, p_heap p)))
           else Inl err))"

definition Parse :: "(Token \<times> string) list \<Rightarrow> error \<Rightarrow> error + (nat \<times> heap)" where
  "Parse ts e = ParseWithOptions ts e \<lparr>Decoder = None\<rparr>"

section \<open>Streaming\<close>

text \<open>
  \<open>Read\<close> first releases the node returned by the previous call: it removes every sibling
  before it, puts the cursor on its parent and removes the node itself.
\<close>

partial_function (option) removePrevSiblings :: "heap \<Rightarrow> nat \<Rightarrow> (error + heap) option" where
  "removePrevSiblings h sn =
     (case PrevSibling (h ! sn) of
        None \<Rightarrow> Some (Inr h)
      | Some pv \<Rightarrow>
          (case remove h pv of
             Inl e \<Rightarrow> Some (Inl e)
           | Inr h' \<Rightarrow> removePrevSiblings h' sn))"

declare removePrevSiblings.simps [code]

definition release :: "parser \<Rightarrow> error + parser" where
  "release p =
     (case p_streamNode p of
        None \<Rightarrow> Inr p
      | Some sn \<Rightarrow>
          (case removePrevSiblings (p_heap p) sn of
             None \<Rightarrow> Inl NonTermination
           | Some (Inl e) \<Rightarrow> Inl e
           | Some (Inr h1) \<Rightarrow>
               (case remove h1 sn of
                  Inl e \<Rightarrow> Inl e
                | Inr h2 \<Rightarrow>
                    Inr (p\<lparr>p_heap := h2, p_prev := Parent (h1 ! sn), p_streamNode := None,
                           p_streamNodePrev := None\<rparr>))))"

definition Read :: "parser \<Rightarrow> (error + nat) \<times> parser" where
  "Read p = (case release p of Inl e \<Rightarrow> (Inl e, p) | Inr p' \<Rightarrow> parse p')"

text \<open>
  \<open>CreateStreamParserWithOptions\<close>, after the two expressions have been compiled: a parser
  on the input with the target expression and the optional filter.
\<close>

definition CreateStreamParser :: "(Token \<times> string) list \<Rightarrow> error \<Rightarrow> Expr \<Rightarrow> Expr option \<Rightarrow> parser" where
  "CreateStreamParser ts e elemXPath elemFilter =
     (createParser (newDecoder ts e))
       \<lparr>p_streamElementXPath := Some elemXPath, p_streamElementFilter := elemFilter\<rparr>"

section \<open>Example inputs\<close>


definition textDoc :: "(Token \<times> string) list" where
  "textDoc =
     [(xml_StartElement \<lparr>Space = [], Local = ''a''\<rparr> [], ''<a>''),
      (xml_CharData ''x'', ''x<''),
      (xml_EndElement \<lparr>Space = [], Local = ''a''\<rparr>, ''/a>'')]"

section \<open>The cache of compiled path expressions\<close>

text \<open>
  Modelled from the spec: the LRU cache (\<open>groupcache/lru\<close>) is not among the sources.  It
  keeps its entries in the order of use, the most recently used first; \<open>Get\<close> and \<open>Add\<close>
  move the entry to the front, and \<open>Add\<close> drops the oldest entry when the number of entries
  exceeds a maximum other than 0.
\<close>

record 'e lru =
  MaxEntries :: int
  entries :: "(string \<times> 'e) list"

definition lru_New :: "int \<Rightarrow> 'e lru" where
  "lru_New n = \<lparr>MaxEntries = n, entries = []\<rparr>"

definition lru_Get :: "'e lru \<Rightarrow> string \<Rightarrow> 'e lru \<times> 'e option" where
  "lru_Get c key =
     (case map_of (entries c) key of
        None \<Rightarrow> (c, None)
      | Some v \<Rightarrow> (c\<lparr>entries := (key, v) # filter (\<lambda>kv. fst kv \<noteq> key) (entries c)\<rparr>, Some v))"

definition lru_Add :: "'e lru \<Rightarrow> string \<Rightarrow> 'e \<Rightarrow> 'e lru" where
  "lru_Add c key v =
     (if map_of (entries c) key \<noteq> None
      then c\<lparr>entries := (key, v) # filter (\<lambda>kv. fst kv \<noteq> key) (entries c)\<rparr>
      else
        (let es = (key, v) # entries c in
         if MaxEntries c \<noteq> 0 \<and> int (length es) > MaxEntries c
         then c\<lparr>entries := butlast es\<rparr>
         else c\<lparr>entries := es\<rparr>))"

text \<open>
  The package variables: the two settings and the cache, which is nil until the first
  call with caching enabled creates it (\<open>cacheOnce\<close>).
\<close>

record 'e selectorCache =
  DisableSelectorCache :: bool
  SelectorCacheMaxEntries :: int
  lruCache :: "'e lru option"

text \<open>
  \<open>getQuery\<close>.  The compiler \<open>xpath.CompileWithOptions\<close> and the rendering of the options
  in the key (\<open>fmt.Sprintf("%#v", opts)\<close>) are external; they are the parameters
  \<open>compile\<close> and \<open>render\<close>.  \<open>cacheOnce\<close> is the cache after \<open>cacheOnce.Do\<close>: the
  existing one, or a new one of the size set at that moment.  The mutex has no effect on
  a single caller.
\<close>

definition cacheOnce :: "'e selectorCache \<Rightarrow> 'e lru" where
  "cacheOnce g =
     (case lruCache g of None \<Rightarrow> lru_New (SelectorCacheMaxEntries g) | Some c \<Rightarrow> c)"

definition getQuery :: "(string \<Rightarrow> 'o \<Rightarrow> 'x + 'e) \<Rightarrow> ('o \<Rightarrow> string) \<Rightarrow> 'e selectorCache \<Rightarrow> string \<Rightarrow> 'o \<Rightarrow> ('x + 'e) \<times> 'e selectorCache" where
  "getQuery compile render g expr opts =
     (let key = expr @ render opts in
      if DisableSelectorCache g \<or> SelectorCacheMaxEntries g \<le> 0 then (compile expr opts, g)
      else
        (let c0 = cacheOnce g;
             (c1, hit) = lru_Get c0 key
         in case hit of
              Some v \<Rightarrow> (Inr v, g\<lparr>lruCache := Some c1\<rparr>)
            | None \<Rightarrow>
                (case compile expr opts of
                   Inl err \<Rightarrow> (Inl err, g\<lparr>lruCache := Some c1\<rparr>)
                 | Inr v \<Rightarrow> (Inr v, g\<lparr>lruCache := Some (lru_Add c1 key v)\<rparr>))))"

text \<open>
  A run of the process: the package starts with the default settings and no cache; before
  each call the caller may set the two variables.
\<close>

definition initialCache :: "'e selectorCache" where
  "initialCache = \<lparr>DisableSelectorCache = False, SelectorCacheMaxEntries = 50, lruCache = None\<rparr>"

fun getQueries :: "(string \<Rightarrow> 'o \<Rightarrow> 'x + 'e) \<Rightarrow> ('o \<Rightarrow> string) \<Rightarrow> 'e selectorCache \<Rightarrow> (bool \<times> int \<times> string \<times> 'o) list \<Rightarrow> ('x + 'e) list \<times> 'e selectorCache" where
  "getQueries compile render g [] = ([], g)"
| "getQueries compile render g ((disable, maxEntries, expr, opts) # calls) =
     (let (r, g1) = getQuery compile render
                      (g\<lparr>DisableSelectorCache := disable, SelectorCacheMaxEntries := maxEntries\<rparr>)
                      expr opts;
          (rs, g2) = getQueries compile render g1 calls
      in (r # rs, g2))"

text \<open>The entries of the cache, none while it does not exist.\<close>

definition cachedEntries :: "'e selectorCache \<Rightarrow> (string \<times> 'e) list" where
  "cachedEntries g = (case lruCache g of None \<Rightarrow> [] | Some c \<Rightarrow> entries c)"

text \<open>Every entry holds what compiling any expression and options with its key gives.\<close>

definition cacheSound :: "(string \<Rightarrow> 'o \<Rightarrow> 'x + 'e) \<Rightarrow> ('o \<Rightarrow> string) \<Rightarrow> 'e selectorCache \<Rightarrow> bool" where
  "cacheSound compile render g \<longleftrightarrow>
     (\<forall>(k, v) \<in> set (cachedEntries g). \<forall>e os. e @ render os = k \<longrightarrow> compile e os = Inr v)"

section \<open>Loading a document from a URL\<close>

text \<open>
  The regular expression engine is external.  An expression is modelled by its syntax
  tree over bytes; \<open>lang\<close> is the set of byte strings it denotes.  \<open>MatchString\<close> reports
  whether some substring of the input is in that set; it is computed with derivatives.
\<close>

datatype rexp =
    Zero
  | One
  | Atom "char list"
  | Alt rexp rexp
  | Seq rexp rexp
  | Star rexp

definition conc :: "string set \<Rightarrow> string set \<Rightarrow> string set" where
  "conc A B = {u @ v | u v. u \<in> A \<and> v \<in> B}"

inductive_set star :: "string set \<Rightarrow> string set" for A :: "string set" where
  star_empty: "[] \<in> star A"
| star_step: "u \<in> A \<Longrightarrow> v \<in> star A \<Longrightarrow> u @ v \<in> star A"

fun lang :: "rexp \<Rightarrow> string set" where
  "lang Zero = {}"
| "lang One = {[]}"
| "lang (Atom cs) = {[c] | c. c \<in> set cs}"
| "lang (Alt r s) = lang r \<union> lang s"
| "lang (Seq r s) = conc (lang r) (lang s)"
| "lang (Star r) = star (lang r)"

fun nullable :: "rexp \<Rightarrow> bool" where
  "nullable Zero = False"
| "nullable One = True"
| "nullable (Atom cs) = False"
| "nullable (Alt r s) = (nullable r \<or> nullable s)"
| "nullable (Seq r s) = (nullable r \<and> nullable s)"
| "nullable (Star r) = True"

fun deriv :: "char \<Rightarrow> rexp \<Rightarrow> rexp" where
  "deriv c Zero = Zero"
| "deriv c One = Zero"
| "deriv c (Atom cs) = (if c \<in> set cs then One else Zero)"
| "deriv c (Alt r s) = Alt (deriv c r) (deriv c s)"
| "deriv c (Seq r s) =
     (if nullable r then Alt (Seq (deriv c r) s) (deriv c s) else Seq (deriv c r) s)"
| "deriv c (Star r) = Seq (deriv c r) (Star r)"

text \<open>Does a prefix of the input match?\<close>

fun matchPrefix :: "rexp \<Rightarrow> string \<Rightarrow> bool" where
  "matchPrefix r [] = nullable r"
| "matchPrefix r (c # cs) = (nullable r \<or> matchPrefix (deriv c r) cs)"

definition MatchString :: "rexp \<Rightarrow> string \<Rightarrow> bool" where
  "MatchString r s = list_ex (matchPrefix r) (suffixes s)"

text \<open>
  The pattern
  \<open>(?i)((application|image|message|model)/((\w|\.|-)+\+?)?|text/)(wb)?xml\<close>.
  Under the flag \<open>i\<close> a letter of the pattern matches both of its cases, and the engine
  also folds two characters outside ASCII onto ASCII letters: the long s (U+017F, bytes
  C5 BF) onto \<open>s\<close> and the Kelvin sign (U+212A, bytes E2 84 AA) onto \<open>k\<close>; the folded class
  \<open>\w\<close> contains both.
\<close>

definition longS :: rexp where
  "longS = Seq (Atom [CHR 0xC5]) (Atom [CHR 0xBF])"

definition kelvin :: rexp where
  "kelvin = Seq (Atom [CHR 0xE2]) (Seq (Atom [CHR 0x84]) (Atom [CHR 0xAA]))"

definition foldCase :: "char \<Rightarrow> rexp" where
  "foldCase c =
     (if c = CHR ''s'' then Alt (Atom ''sS'') longS
      else if c = CHR ''k'' then Alt (Atom ''kK'') kelvin
      else Atom [c, toUpper c])"

fun literal :: "string \<Rightarrow> rexp" where
  "literal [] = One"
| "literal (c # cs) = Seq (foldCase c) (literal cs)"

definition wordChar :: rexp where
  "wordChar =
     Alt (Atom ''0123456789ABCDEFGHIJKLMNOPQRSTUVWXYZ_abcdefghijklmnopqrstuvwxyz'')
       (Alt longS kelvin)"

definition Opt :: "rexp \<Rightarrow> rexp" where
  "Opt r = Alt r One"

definition Plus :: "rexp \<Rightarrow> rexp" where
  "Plus r = Seq r (Star r)"

definition xmlMIMERegex :: rexp where
  "xmlMIMERegex =
     Seq (Alt (Seq (Alt (literal ''application'')
                     (Alt (literal ''image'') (Alt (literal ''message'') (literal ''model''))))
                (Seq (Atom ''/'')
                   (Opt (Seq (Plus (Alt wordChar (Alt (Atom ''.'') (Atom ''-''))))
                           (Opt (Atom ''+''))))))
              (literal ''text/''))
       (Seq (Opt (literal ''wb'')) (literal ''xml''))"

text \<open>
  \<open>LoadURL\<close>.  The argument is what \<open>http.Get\<close> returned: an error, or a response with
  the value of its Content-Type header and its body, the body being a token stream as
  for \<open>Parse\<close>.
\<close>

record response =
  contentType :: string
  body :: "(Token \<times> string) list"
  bodyFinal :: error

definition LoadURL :: "error + response \<Rightarrow> error + (nat \<times> heap)" where
  "LoadURL got =
     (case got of
        Inl err \<Rightarrow> Inl err
      | Inr resp \<Rightarrow>
          (if MatchString xmlMIMERegex (contentType resp)
           then Parse (body resp) (bodyFinal resp)
           else Inl (InvalidContentType (contentType resp))))"

section \<open>Serialization and the target expression of the examples\<close>

text \<open>
  \<open>outputXML\<close> writes a node with its subtree.  The model has one function for the two
  loops of the source: with \<open>chain\<close> set it writes the node and then its following siblings
  (the loop over the children of a node), without it the node alone.

  Modelled from the spec: \<open>SelectAttr\<close> is not among the sources; it returns the value of
  the attribute with the given qualified name, or the empty string.  \<open>xml.EscapeText\<close> is
  external; it is modelled for the characters it replaces in ASCII text.
\<close>

definition SelectAttr :: "Node \<Rightarrow> string \<Rightarrow> string" where
  "SelectAttr n nm =
     (let i = Index nm CHR '':'';
          sp = (if i > 0 then take (nat i) nm else []);
          lc = (if i > 0 then drop (nat i + 1) nm else nm)
      in case find (\<lambda>a. Local (AttrName a) = lc \<and> Space (AttrName a) = sp) (Attrs n) of
           None \<Rightarrow> []
         | Some a \<Rightarrow> Value a)"

definition calculatePreserveSpaces :: "Node \<Rightarrow> bool \<Rightarrow> bool" where
  "calculatePreserveSpaces n pastValue =
     (if SelectAttr n ''xml:space'' = ''preserve'' then True
      else if SelectAttr n ''xml:space'' = ''default'' then False
      else pastValue)"

definition sanitizedData :: "Node \<Rightarrow> bool \<Rightarrow> string" where
  "sanitizedData n preserveSpaces =
     (if preserveSpaces then Trim (\<lambda>c. c = CHR 0x0A \<or> c = CHR 0x09) (Data n)
      else TrimSpace (Data n))"

definition escapeChar :: "char \<Rightarrow> string" where
  "escapeChar c =
     (if c = CHR 0x22 then ''&#34;''
      else if c = CHR 0x27 then ''&#39;''
      else if c = CHR ''&'' then ''&amp;''
      else if c = CHR ''<'' then ''&lt;''
      else if c = CHR ''>'' then ''&gt;''
      else if c = CHR 0x09 then ''&#x9;''
      else if c = CHR 0x0A then ''&#xA;''
      else if c = CHR 0x0D then ''&#xD;''
      else [c])"

definition EscapeText :: "string \<Rightarrow> string" where
  "EscapeText s = concat (map escapeChar s)"

definition attrText :: "Attr \<Rightarrow> string" where
  "attrText a =
     (if Space (AttrName a) \<noteq> []
      then '' '' @ Space (AttrName a) @ '':'' @ Local (AttrName a) @ ''=''
      else '' '' @ Local (AttrName a) @ ''='')
     @ [CHR 0x22] @ EscapeText (Value a) @ [CHR 0x22]"

definition qualifiedName :: "Node \<Rightarrow> string" where
  "qualifiedName n = (if Prefix n = [] then Data n else Prefix n @ '':'' @ Data n)"

definition openTag :: "Node \<Rightarrow> string" where
  "openTag n =
     (if Type n = DeclarationNode then ''<?'' @ Data n else ''<'' @ qualifiedName n)
     @ concat (map attrText (Attrs n))
     @ (if Type n = DeclarationNode then ''?>'' else ''>'')"

definition closeTag :: "Node \<Rightarrow> string" where
  "closeTag n = (if Type n \<noteq> DeclarationNode then ''</'' @ qualifiedName n @ ''>'' else [])"

partial_function (option) outputXML :: "heap \<Rightarrow> bool \<Rightarrow> nat option \<Rightarrow> bool \<Rightarrow> string option" where
  "outputXML h chain node pastValue =
     (case node of
        None \<Rightarrow> Some []
      | Some a \<Rightarrow>
          Option.bind
            (if Type (h ! a) = TextNode \<or> Type (h ! a) = CharDataNode
             then Some (EscapeText
                          (sanitizedData (h ! a) (calculatePreserveSpaces (h ! a) pastValue)))
             else if Type (h ! a) = CommentNode
             then Some (''<!--'' @ Data (h ! a) @ ''-->'')
             else Option.bind
                    (outputXML h True (FirstChild (h ! a))
                       (calculatePreserveSpaces (h ! a) pastValue))
                    (\<lambda>kids. Some (openTag (h ! a) @ kids @ closeTag (h ! a))))
            (\<lambda>s. if chain
                 then Option.bind (outputXML h True (NextSibling (h ! a)) pastValue)
                        (\<lambda>rest. Some (s @ rest))
                 else Some s))"

declare outputXML.simps [code]

definition OutputXML :: "heap \<Rightarrow> nat \<Rightarrow> bool \<Rightarrow> string option" where
  "OutputXML h n self =
     (if self then outputXML h False (Some n) False
      else outputXML h True (FirstChild (h ! n)) False)"

text \<open>
  Modelled from the spec: the path evaluator is external.  \<open>selectPath names\<close> is the
  expression that selects, from the top node, the elements reached by descending through
  child elements with the given names, in document order; \<open>selectPath [AAA, BBB]\<close> is the
  target "every BBB under AAA".
\<close>

partial_function (option) siblingsFrom :: "heap \<Rightarrow> nat option \<Rightarrow> nat list option" where
  "siblingsFrom h node =
     (case node of
        None \<Rightarrow> Some []
      | Some a \<Rightarrow> Option.bind (siblingsFrom h (NextSibling (h ! a))) (\<lambda>xs. Some (a # xs)))"

declare siblingsFrom.simps [code]

definition childElements :: "heap \<Rightarrow> string \<Rightarrow> nat \<Rightarrow> nat list" where
  "childElements h nm a =
     (case siblingsFrom h (FirstChild (h ! a)) of
        None \<Rightarrow> []
      | Some cs \<Rightarrow> filter (\<lambda>c. Type (h ! c) = ElementNode \<and> Data (h ! c) = nm) cs)"

definition selectPath :: "string list \<Rightarrow> Expr" where
  "selectPath names h t =
     (case foldl (\<lambda>ctx nm. concat (map (childElements h nm) ctx)) [t] names of
        [] \<Rightarrow> None
      | x # _ \<Rightarrow> Some x)"

text \<open>The token stream of \<open><AAA><BBB>b1</BBB><BBB>b2</BBB></AAA>\<close>.\<close>

definition streamDoc :: "(Token \<times> string) list" where
  "streamDoc =
     [(xml_StartElement \<lparr>Space = [], Local = ''AAA''\<rparr> [], ''<AAA>''),
      (xml_StartElement \<lparr>Space = [], Local = ''BBB''\<rparr> [], ''<BBB>''),
      (xml_CharData ''b1'', ''b1<''),
      (xml_EndElement \<lparr>Space = [], Local = ''BBB''\<rparr>, ''/BBB>''),
      (xml_StartElement \<lparr>Space = [], Local = ''BBB''\<rparr> [], ''<BBB>''),
      (xml_CharData ''b2'', ''b2<''),
      (xml_EndElement \<lparr>Space = [], Local = ''BBB''\<rparr>, ''/BBB>''),
      (xml_EndElement \<lparr>Space = [], Local = ''AAA''\<rparr>, ''</AAA>'')]"

section \<open>Runs of the token loop and the shape of the heaps they build\<close>

text \<open>
  \<open>steps\<close> is the loop of \<open>parse\<close> on a list of tokens, without the end of the input: the
  state reached when no token makes \<open>parse\<close> return, or the first return.
\<close>

fun steps :: "(Token \<times> string) list \<Rightarrow> parser \<Rightarrow> int \<Rightarrow> outcome" where
  "steps [] p c = Continue p c"
| "steps ((tok, raw) # rest) p c =
     (case step tok (p\<lparr>p_cache := Cache raw\<rparr>) c of
        Continue p' c' \<Rightarrow> steps rest p' c'
      | Return r p' \<Rightarrow> Return r p')"

text \<open>
  What the tokenizer guarantees about the order of its tokens: an end tag closes a start
  tag that is open (it reports a syntax error otherwise).  \<open>nesting d ts\<close> holds when
  \<open>ts\<close> can follow \<open>d\<close> open start tags.
\<close>

fun nesting :: "nat \<Rightarrow> Token list \<Rightarrow> bool" where
  "nesting d [] = True"
| "nesting d (xml_StartElement nm atts # ts) = nesting (Suc d) ts"
| "nesting d (xml_EndElement nm # ts) = (0 < d \<and> nesting (d - 1) ts)"
| "nesting d (tok # ts) = nesting d ts"

text \<open>The tokens that leave the depth of the parser alone.\<close>

fun keepsDepth :: "Token \<Rightarrow> bool" where
  "keepsDepth (xml_CharData tok) = True"
| "keepsDepth (xml_Comment tok) = True"
| "keepsDepth (xml_Directive tok) = True"
| "keepsDepth tok = False"

definition hasElement :: "heap \<Rightarrow> bool" where
  "hasElement h \<longleftrightarrow> (\<exists>a < length h. Type (h ! a) = ElementNode)"

text \<open>
  Invariants of the heaps built by the parser: pointers stay inside the heap; a next
  sibling was allocated later than the node; a last child names its parent; the document
  node, at address 0, has a well-linked list of children that holds every node whose
  parent it is.
\<close>

definition pointersInRange :: "heap \<Rightarrow> bool" where
  "pointersInRange h \<longleftrightarrow>
     (\<forall>a < length h. \<forall>b.
        (Parent (h ! a) = Some b \<or> FirstChild (h ! a) = Some b \<or> LastChild (h ! a) = Some b \<or>
         PrevSibling (h ! a) = Some b \<or> NextSibling (h ! a) = Some b) \<longrightarrow> b < length h)"

definition nextAscends :: "heap \<Rightarrow> bool" where
  "nextAscends h \<longleftrightarrow> (\<forall>a < length h. \<forall>b. NextSibling (h ! a) = Some b \<longrightarrow> a < b)"

definition lastChildOwned :: "heap \<Rightarrow> bool" where
  "lastChildOwned h \<longleftrightarrow>
     (\<forall>p < length h. \<forall>l. LastChild (h ! p) = Some l \<longrightarrow> Parent (h ! l) = Some p)"

definition topChildren :: "heap \<Rightarrow> nat list \<Rightarrow> bool" where
  "topChildren h ks \<longleftrightarrow>
     childrenOf h 0 ks \<and> (\<forall>a < length h. Parent (h ! a) = Some 0 \<longrightarrow> a \<in> set ks)"

definition heapInv :: "heap \<Rightarrow> nat list \<Rightarrow> bool" where
  "heapInv h ks \<longleftrightarrow>
     pointersInRange h \<and> nextAscends h \<and> lastChildOwned h \<and> topChildren h ks \<and>
     Type (h ! 0) = DocumentNode \<and> level (h ! 0) = 0 \<and> Parent (h ! 0) = None"

text \<open>A node that nothing points to and that points to nothing, as after its allocation.\<close>

definition fresh :: "heap \<Rightarrow> nat \<Rightarrow> bool" where
  "fresh h n \<longleftrightarrow>
     Suc n = length h \<and>
     Parent (h ! n) = None \<and> FirstChild (h ! n) = None \<and> LastChild (h ! n) = None \<and>
     PrevSibling (h ! n) = None \<and> NextSibling (h ! n) = None \<and>
     (\<forall>a < length h.
        Parent (h ! a) \<noteq> Some n \<and> FirstChild (h ! a) \<noteq> Some n \<and> LastChild (h ! a) \<noteq> Some n \<and>
        PrevSibling (h ! a) \<noteq> Some n \<and> NextSibling (h ! a) \<noteq> Some n)"

text \<open>The contents of the nodes, apart from their links.\<close>

definition samePayload :: "heap \<Rightarrow> heap \<Rightarrow> bool" where
  "samePayload h h' \<longleftrightarrow>
     length h' = length h \<and>
     (\<forall>x. Type (h' ! x) = Type (h ! x) \<and> Data (h' ! x) = Data (h ! x) \<and>
          Prefix (h' ! x) = Prefix (h ! x) \<and> NamespaceURI (h' ! x) = NamespaceURI (h ! x) \<and>
          Attrs (h' ! x) = Attrs (h ! x) \<and> level (h' ! x) = level (h ! x) \<and>
          ProcInst (h' ! x) = ProcInst (h ! x))"

text \<open>
  \<open>childLinked h parent n h'\<close>: heap \<open>h'\<close> is \<open>h\<close> with \<open>n\<close> linked in as the last child of
  \<open>parent\<close>; \<open>siblingLinked h s n h'\<close>: with \<open>n\<close> linked in after \<open>s\<close>, the end of a chain.
\<close>

definition childLinked :: "heap \<Rightarrow> nat \<Rightarrow> nat \<Rightarrow> heap \<Rightarrow> bool" where
  "childLinked h parent n h' \<longleftrightarrow>
     samePayload h h' \<and>
     (\<forall>x. Parent (h' ! x) = (if x = n then Some parent else Parent (h ! x)) \<and>
          FirstChild (h' ! x) =
            (if x = parent \<and> FirstChild (h ! parent) = None then Some n else FirstChild (h ! x)) \<and>
          LastChild (h' ! x) = (if x = parent then Some n else LastChild (h ! x)) \<and>
          PrevSibling (h' ! x) =
            (if x = n \<and> FirstChild (h ! parent) \<noteq> None then LastChild (h ! parent)
             else PrevSibling (h ! x)) \<and>
          NextSibling (h' ! x) =
            (if FirstChild (h ! parent) \<noteq> None \<and> LastChild (h ! parent) = Some x then Some n
             else NextSibling (h ! x)))"

definition siblingLinked :: "heap \<Rightarrow> nat \<Rightarrow> nat \<Rightarrow> heap \<Rightarrow> bool" where
  "siblingLinked h s n h' \<longleftrightarrow>
     samePayload h h' \<and>
     (\<forall>x. Parent (h' ! x) = (if x = n then Parent (h ! s) else Parent (h ! x)) \<and>
          FirstChild (h' ! x) = FirstChild (h ! x) \<and>
          LastChild (h' ! x) = (if Parent (h ! s) = Some x then Some n else LastChild (h ! x)) \<and>
          PrevSibling (h' ! x) = (if x = n then Some s else PrevSibling (h ! x)) \<and>
          NextSibling (h' ! x) = (if x = s then Some n else NextSibling (h ! x)))"

text \<open>
  The state of a full-document parse: no streaming, the document at address 0, the
  invariants of the heap, and a cursor inside the heap.  Once an element exists, one of the children of the document is
  an element.  Before that the parser is at depth 0 with the cursor on the childless
  document, or at depth 1 with the cursor on a declaration or processing instruction
  among the children of the document.
\<close>

definition beforeElements :: "parser \<Rightarrow> nat list \<Rightarrow> bool" where
  "beforeElements p ks \<longleftrightarrow>
     (p_level p = 0 \<and> p_prev p = Some 0 \<and> ks = []) \<or>
     (p_level p = 1 \<and>
      (\<exists>k. p_prev p = Some k \<and> k \<in> set ks \<and> level (p_heap p ! k) = 1 \<and>
           (Type (p_heap p ! k) = DeclarationNode \<or> Type (p_heap p ! k) = ProcessingInstruction)))"

definition parserInv :: "parser \<Rightarrow> nat list \<Rightarrow> bool" where
  "parserInv p ks \<longleftrightarrow>
     p_doc p = 0 \<and> p_streamElementXPath p = None \<and> p_streamNode p = None \<and>
     heapInv (p_heap p) ks \<and>
     (\<forall>pv. p_prev p = Some pv \<longrightarrow> pv < length (p_heap p)) \<and>
     (if hasElement (p_heap p) then list_ex (\<lambda>k. Type (p_heap p ! k) = ElementNode) ks
      else beforeElements p ks)"

text \<open>
  \<open>climbs h a k\<close>: node \<open>a\<close> has a \<open>k\<close>-th ancestor, so that \<open>k\<close> steps along \<open>Parent\<close> stay on
  nodes.
\<close>

definition climbs :: "heap \<Rightarrow> nat \<Rightarrow> nat \<Rightarrow> bool" where
  "climbs h a k \<longleftrightarrow> (case walkUp h k (Some a) of Inr (Some b) \<Rightarrow> True | _ \<Rightarrow> False)"

text \<open>
  Further invariants of the heaps built by the parser: a node with a first child has a last
  child; siblings have the same parent; the level recorded in a node is greater than the
  level recorded in its parent.
\<close>

definition firstHasLast :: "heap \<Rightarrow> bool" where
  "firstHasLast h \<longleftrightarrow> (\<forall>a < length h. FirstChild (h ! a) \<noteq> None \<longrightarrow> LastChild (h ! a) \<noteq> None)"

definition siblingsShareParent :: "heap \<Rightarrow> bool" where
  "siblingsShareParent h \<longleftrightarrow>
     (\<forall>a < length h. \<forall>b. NextSibling (h ! a) = Some b \<longrightarrow> Parent (h ! b) = Parent (h ! a))"

definition parentIsHigher :: "heap \<Rightarrow> bool" where
  "parentIsHigher h \<longleftrightarrow>
     (\<forall>a < length h. \<forall>q. Parent (h ! a) = Some q \<longrightarrow> level (h ! q) < level (h ! a))"

definition treeInv :: "heap \<Rightarrow> bool" where
  "treeInv h \<longleftrightarrow> firstHasLast h \<and> siblingsShareParent h \<and> parentIsHigher h"

text \<open>
  The cursor of a full-document parse with \<open>d\<close> start tags open: the cursor node has as
  many ancestors as the depth can still fall below its level, and at least \<open>d - 1\<close>; once
  an element exists the depth is greater than \<open>d\<close>.
\<close>

definition cursorInv :: "parser \<Rightarrow> nat \<Rightarrow> bool" where
  "cursorInv p d \<longleftrightarrow>
     (\<exists>pv. p_prev p = Some pv \<and>
        climbs (p_heap p) pv (nat (level (p_heap p ! pv) - p_level p + int d)) \<and>
        climbs (p_heap p) pv (d - 1)) \<and>
     (if hasElement (p_heap p) then int d < p_level p else d = 0)"

text \<open>The number of start tags open after a list of tokens that follows \<open>d\<close> open start tags.\<close>

fun opened :: "nat \<Rightarrow> Token list \<Rightarrow> nat" where
  "opened d [] = d"
| "opened d (xml_StartElement nm atts # ts) = opened (Suc d) ts"
| "opened d (xml_EndElement nm # ts) = opened (d - 1) ts"
| "opened d (tok # ts) = opened d ts"

text \<open>The invariant of a full-document parse with \<open>d\<close> start tags open.\<close>

definition runInv :: "parser \<Rightarrow> nat list \<Rightarrow> nat \<Rightarrow> bool" where
  "runInv p ks d \<longleftrightarrow> parserInv p ks \<and> treeInv (p_heap p) \<and> cursorInv p d"

subsection \<open>Documents with an undeclared prefix\<close>




section \<open>Properties of the node model\<close>

lemma length_setters [simp]:
  "length (setParent h a v) = length h"
  "length (setFirstChild h a v) = length h"
  "length (setLastChild h a v) = length h"
  "length (setPrevSibling h a v) = length h"
  "length (setNextSibling h a v) = length h"
  by (simp_all add: setParent_def setFirstChild_def setLastChild_def setPrevSibling_def
      setNextSibling_def)

lemma nth_upd_field:
  "h[a := f (h ! a)] ! b = (if a = b \<and> a < length h then f (h ! b) else h ! b)"
  by (cases "a < length h") (simp_all add: nth_list_update list_update_beyond)

lemma nth_setters:
  "setParent h a v ! b = (if a = b \<and> a < length h then (h ! b)\<lparr>Parent := v\<rparr> else h ! b)"
  "setFirstChild h a v ! b =
     (if a = b \<and> a < length h then (h ! b)\<lparr>FirstChild := v\<rparr> else h ! b)"
  "setLastChild h a v ! b =
     (if a = b \<and> a < length h then (h ! b)\<lparr>LastChild := v\<rparr> else h ! b)"
  "setPrevSibling h a v ! b =
     (if a = b \<and> a < length h then (h ! b)\<lparr>PrevSibling := v\<rparr> else h ! b)"
  "setNextSibling h a v ! b =
     (if a = b \<and> a < length h then (h ! b)\<lparr>NextSibling := v\<rparr> else h ! b)"
  unfolding setParent_def setFirstChild_def setLastChild_def setPrevSibling_def
    setNextSibling_def
  by (rule nth_upd_field)+

subsection \<open>Sibling runs\<close>

lemma seg_in_range: "seg h pv xs nx \<Longrightarrow> x \<in> set xs \<Longrightarrow> x < length h"
  by (induction h pv xs nx rule: seg.induct) auto

lemma seg_Cons:
  "seg h pv (x # xs) nx \<longleftrightarrow>
     x < length h \<and> PrevSibling (h ! x) = pv \<and>
     NextSibling (h ! x) = (case xs of [] \<Rightarrow> nx | y # _ \<Rightarrow> Some y) \<and> seg h (Some x) xs nx"
  by (cases xs) auto

lemma seg_append:
  "seg h pv (xs @ y # ys) nx \<longleftrightarrow>
     seg h pv xs (Some y) \<and> seg h (if xs = [] then pv else Some (last xs)) (y # ys) nx"
  by (induction h pv xs "Some y" rule: seg.induct) (auto simp: seg_Cons)

lemma seg_frame:
  "length h' = length h \<Longrightarrow>
   \<forall>x \<in> set xs. PrevSibling (h' ! x) = PrevSibling (h ! x) \<and>
      NextSibling (h' ! x) = NextSibling (h ! x) \<Longrightarrow>
   seg h' pv xs nx = seg h pv xs nx"
  by (induction h pv xs nx rule: seg.induct) auto

lemma seg_relink_last:
  "seg h pv xs nx \<Longrightarrow> length h' = length h \<Longrightarrow> distinct xs \<Longrightarrow>
   \<forall>x \<in> set xs. PrevSibling (h' ! x) = PrevSibling (h ! x) \<and>
      NextSibling (h' ! x) = (if x = last xs then nx' else NextSibling (h ! x)) \<Longrightarrow>
   seg h' pv xs nx'"
  by (induction h pv xs nx rule: seg.induct) auto

lemma seg_relink_first:
  "seg h pv xs nx \<Longrightarrow> length h' = length h \<Longrightarrow> distinct xs \<Longrightarrow>
   \<forall>x \<in> set xs. NextSibling (h' ! x) = NextSibling (h ! x) \<and>
      PrevSibling (h' ! x) = (if x = hd xs then pv' else PrevSibling (h ! x)) \<Longrightarrow>
   seg h' pv' xs nx"
proof (cases xs)
  case Nil
  then show ?thesis by simp
next
  case (Cons y ys)
  assume a: "seg h pv xs nx" "length h' = length h" "distinct xs"
    "\<forall>x \<in> set xs. NextSibling (h' ! x) = NextSibling (h ! x) \<and>
      PrevSibling (h' ! x) = (if x = hd xs then pv' else PrevSibling (h ! x))"
  have "seg h' (Some y) ys nx = seg h (Some y) ys nx"
    using a Cons by (intro seg_frame) auto
  with a Cons show ?thesis by (auto simp: seg_Cons)
qed

lemma seg_split:
  "seg h pv (pre @ n # post) nx \<Longrightarrow>
     seg h pv pre (Some n) \<and> n < length h \<and>
     PrevSibling (h ! n) = (if pre = [] then pv else Some (last pre)) \<and>
     NextSibling (h ! n) = (if post = [] then nx else Some (hd post)) \<and>
     seg h (Some n) post nx"
  by (cases post) (auto simp: seg_append seg_Cons)

subsection \<open>Detaching a node\<close>

lemma remove_root: "Parent (h ! n) = None \<Longrightarrow> remove h n = Inr h"
  by (simp add: remove_def)

lemma remove_links:
  assumes par: "Parent (h ! n) = Some p" and pn: "p \<noteq> n" and pl: "p < length h"
    and nl: "n < length h"
    and A: "(FirstChild (h ! p) = Some n) = (PrevSibling (h ! n) = None)"
    and B: "(LastChild (h ! p) = Some n) = (NextSibling (h ! n) = None)"
    and pv: "\<And>a. PrevSibling (h ! n) = Some a \<Longrightarrow> a < length h \<and> a \<noteq> n"
    and nx: "\<And>b. NextSibling (h ! n) = Some b \<Longrightarrow> b < length h \<and> b \<noteq> n"
  shows "\<exists>h'. remove h n = Inr h' \<and> spliced h p n h'"
proof (cases "PrevSibling (h ! n)")
  case None
  note P = None
  show ?thesis
  proof (cases "NextSibling (h ! n)")
    case None
    with P par pn pl nl A B show ?thesis
      by (simp add: remove_def spliced_def nth_setters)
  next
    case (Some b)
    with P par pn pl nl A B nx[of b] show ?thesis
      by (simp add: remove_def spliced_def nth_setters Let_def)
  qed
next
  case (Some a)
  note P = Some
  show ?thesis
  proof (cases "NextSibling (h ! n)")
    case None
    with P par pn pl nl A B pv[of a] show ?thesis
      by (simp add: remove_def spliced_def nth_setters Let_def)
  next
    case (Some b)
    with P par pn pl nl A B pv[of a] nx[of b] show ?thesis
      by (simp add: remove_def spliced_def nth_setters Let_def)
  qed
qed

lemma remove_children:
  assumes c: "childrenOf h p (pre @ n # post)"
  shows "\<exists>h'. remove h n = Inr h' \<and> spliced h p n h' \<and> childrenOf h' p (pre @ post)"
proof -
  from c have pl: "p < length h" and pn: "p \<noteq> n" and ppre: "p \<notin> set pre"
    and ppost: "p \<notin> set post"
    and d: "distinct (pre @ n # post)" and s: "seg h None (pre @ n # post) None"
    and par: "\<forall>c \<in> set (pre @ n # post). Parent (h ! c) = Some p"
    and fc: "FirstChild (h ! p) = Some (hd (pre @ n # post))"
    and lc: "LastChild (h ! p) = Some (last (pre @ n # post))"
    by (auto simp: childrenOf_def)
  from seg_split[OF s] have s1: "seg h None pre (Some n)" and nl: "n < length h"
    and pv: "PrevSibling (h ! n) = (if pre = [] then None else Some (last pre))"
    and nx: "NextSibling (h ! n) = (if post = [] then None else Some (hd post))"
    and s2: "seg h (Some n) post None" by auto
  from d have npre: "n \<notin> set pre" and npost: "n \<notin> set post" and dpre: "distinct pre"
    and dpost: "distinct post" and disj: "set pre \<inter> set post = {}" by auto
  have A: "(FirstChild (h ! p) = Some n) = (PrevSibling (h ! n) = None)"
    using fc pv npre by (cases pre) auto
  have B: "(LastChild (h ! p) = Some n) = (NextSibling (h ! n) = None)"
    using lc nx npost by (cases post rule: rev_cases) auto
  have pvr: "\<And>a. PrevSibling (h ! n) = Some a \<Longrightarrow> a < length h \<and> a \<noteq> n"
    using pv npre seg_in_range[OF s1] by (auto split: if_splits)
  have nxr: "\<And>b. NextSibling (h ! n) = Some b \<Longrightarrow> b < length h \<and> b \<noteq> n"
    using nx npost seg_in_range[OF s2] by (auto split: if_splits)
  from par have parn: "Parent (h ! n) = Some p" by simp
  from remove_links[OF parn pn pl nl A B pvr nxr]
  obtain h' where r: "remove h n = Inr h'" and sp: "spliced h p n h'" by blast
  from sp have len: "length h' = length h" by (simp add: spliced_def)
  have segpre: "seg h' None pre (NextSibling (h ! n))"
  proof (rule seg_relink_last[OF s1 len dpre], rule ballI)
    fix x assume x: "x \<in> set pre"
    then have "x \<noteq> n" using npre by auto
    moreover have "NextSibling (h ! n) \<noteq> Some x"
      using nx x disj by (cases post) auto
    moreover have "(PrevSibling (h ! n) = Some x) = (x = last pre)"
      using pv x by auto
    ultimately show "PrevSibling (h' ! x) = PrevSibling (h ! x) \<and>
      NextSibling (h' ! x) = (if x = last pre then NextSibling (h ! n) else NextSibling (h ! x))"
      using sp by (simp add: spliced_def)
  qed
  have segpost: "seg h' (PrevSibling (h ! n)) post None"
  proof (rule seg_relink_first[OF s2 len dpost], rule ballI)
    fix x assume x: "x \<in> set post"
    then have "x \<noteq> n" using npost by auto
    moreover have "PrevSibling (h ! n) \<noteq> Some x"
      using pv x disj by (cases pre rule: rev_cases) auto
    moreover have "(NextSibling (h ! n) = Some x) = (x = hd post)"
      using nx x by auto
    ultimately show "NextSibling (h' ! x) = NextSibling (h ! x) \<and>
      PrevSibling (h' ! x) = (if x = hd post then PrevSibling (h ! n) else PrevSibling (h ! x))"
      using sp by (simp add: spliced_def)
  qed
  have seg': "seg h' None (pre @ post) None"
  proof (cases post)
    case Nil
    with segpre nx show ?thesis by simp
  next
    case (Cons y ys)
    with segpre segpost nx pv show ?thesis by (simp add: seg_append)
  qed
  have par': "\<forall>c \<in> set (pre @ post). Parent (h' ! c) = Some p"
    using par sp npre npost by (auto simp: spliced_def)
  have fc': "FirstChild (h' ! p) = (if pre @ post = [] then None else Some (hd (pre @ post)))"
    using sp fc nx npre by (cases pre) (auto simp: spliced_def)
  have lc': "LastChild (h' ! p) = (if pre @ post = [] then None else Some (last (pre @ post)))"
    using sp lc pv npost by (cases post rule: rev_cases) (auto simp: spliced_def)
  have "childrenOf h' p (pre @ post)"
    unfolding childrenOf_def using pl len ppre ppost d seg' par' fc' lc' by auto
  with r sp show ?thesis by blast
qed

lemma spliced_keeps_children:
  assumes sp: "spliced h p n h'" and c: "childrenOf h p cs" and n: "n \<in> set cs"
    and ds: "childrenOf h n ds"
  shows "childrenOf h' n ds"
proof -
  from c n have pn: "p \<noteq> n" and parn: "Parent (h ! n) = Some p"
    and parcs: "\<forall>c \<in> set cs. Parent (h ! c) = Some p" and scs: "seg h None cs None"
    by (auto simp: childrenOf_def)
  from ds have nds: "n \<notin> set ds" and pards: "\<forall>d \<in> set ds. Parent (h ! d) = Some n"
    by (auto simp: childrenOf_def)
  from parcs pards pn have disj: "set cs \<inter> set ds = {}" by auto
  obtain pre post where cs: "cs = pre @ n # post" using n by (auto dest: split_list)
  from seg_split[OF scs[unfolded cs]]
  have pv: "PrevSibling (h ! n) = (if pre = [] then None else Some (last pre))"
    and nx: "NextSibling (h ! n) = (if post = [] then None else Some (hd post))" by auto
  have notnb: "\<forall>d \<in> set ds. PrevSibling (h ! n) \<noteq> Some d \<and> NextSibling (h ! n) \<noteq> Some d"
  proof
    fix d assume d: "d \<in> set ds"
    have "PrevSibling (h ! n) = Some d \<Longrightarrow> d \<in> set cs"
      using pv cs by (cases pre rule: rev_cases) (auto split: if_splits)
    moreover have "NextSibling (h ! n) = Some d \<Longrightarrow> d \<in> set cs"
      using nx cs by (cases post) (auto split: if_splits)
    ultimately show "PrevSibling (h ! n) \<noteq> Some d \<and> NextSibling (h ! n) \<noteq> Some d"
      using d disj by auto
  qed
  from sp have len: "length h' = length h" by (simp add: spliced_def)
  have "seg h' None ds None = seg h None ds None"
    using sp nds notnb by (intro seg_frame[OF len]) (auto simp: spliced_def)
  moreover have "\<forall>d \<in> set ds. Parent (h' ! d) = Some n"
    using sp pards nds by (auto simp: spliced_def)
  moreover have "FirstChild (h' ! n) = FirstChild (h ! n)" "LastChild (h' ! n) = LastChild (h ! n)"
    using sp pn by (auto simp: spliced_def)
  ultimately show ?thesis using ds len by (simp add: childrenOf_def)
qed

text \<open>
  C9.  Detaching a node without a parent (the document root, for one) leaves the heap as it
  is.  Detaching a child \<open>n\<close> of \<open>p\<close> from a well-linked child list \<open>cs\<close> succeeds; the
  children of \<open>p\<close> are then \<open>cs\<close> without \<open>n\<close>, again well linked (first and last child of
  \<open>p\<close> and the links of the neighbours are updated together); \<open>n\<close> has no parent, no
  previous and no next sibling; the first and last child of \<open>n\<close> are what they were and
  a well-linked child list of \<open>n\<close> is still one; every other link and all node contents
  are unchanged (\<open>spliced\<close>).
\<close>

theorem remove_detaches:
  "(Parent (h ! n) = None \<longrightarrow> remove h n = Inr h) \<and>
   (childrenOf h p cs \<and> n \<in> set cs \<longrightarrow>
      (\<exists>h'. remove h n = Inr h' \<and> childrenOf h' p (remove1 n cs) \<and>
         Parent (h' ! n) = None \<and> PrevSibling (h' ! n) = None \<and> NextSibling (h' ! n) = None \<and>
         FirstChild (h' ! n) = FirstChild (h ! n) \<and> LastChild (h' ! n) = LastChild (h ! n) \<and>
         (\<forall>ds. childrenOf h n ds \<longrightarrow> childrenOf h' n ds) \<and>
         spliced h p n h'))"
proof (intro conjI impI)
  assume "Parent (h ! n) = None"
  then show "remove h n = Inr h" by (rule remove_root)
next
  assume a: "childrenOf h p cs \<and> n \<in> set cs"
  then obtain pre post where cs: "cs = pre @ n # post" by (auto dest: split_list)
  from a have "distinct cs" and pn: "p \<noteq> n" by (auto simp: childrenOf_def)
  with cs have r1: "remove1 n cs = pre @ post" by (simp add: remove1_append)
  from a cs remove_children[of h p pre n post]
  obtain h' where r: "remove h n = Inr h'" and sp: "spliced h p n h'"
    and c': "childrenOf h' p (pre @ post)" by blast
  have keep: "\<forall>ds. childrenOf h n ds \<longrightarrow> childrenOf h' n ds"
    using spliced_keeps_children[OF sp] a by blast
  from sp pn have "Parent (h' ! n) = None" "PrevSibling (h' ! n) = None"
    "NextSibling (h' ! n) = None" "FirstChild (h' ! n) = FirstChild (h ! n)"
    "LastChild (h' ! n) = LastChild (h ! n)"
    by (simp_all add: spliced_def)
  with r sp c' r1 keep
  show "\<exists>h'. remove h n = Inr h' \<and> childrenOf h' p (remove1 n cs) \<and>
         Parent (h' ! n) = None \<and> PrevSibling (h' ! n) = None \<and> NextSibling (h' ! n) = None \<and>
         FirstChild (h' ! n) = FirstChild (h ! n) \<and> LastChild (h' ! n) = LastChild (h ! n) \<and>
         (\<forall>ds. childrenOf h n ds \<longrightarrow> childrenOf h' n ds) \<and>
         spliced h p n h'"
    by auto
qed

theorem remove_detaches_witness:
  "Parent (exampleHeap ! 0) = None \<and> remove exampleHeap 0 = Inr exampleHeap \<and>
   childrenOf exampleHeap 0 [1, 2, 3] \<and> childrenOf exampleHeap 2 [4] \<and>
   (\<exists>h'. remove exampleHeap 2 = Inr h' \<and> childrenOf h' 0 [1, 3] \<and> childrenOf h' 2 [4] \<and>
      Parent (h' ! 2) = None \<and> PrevSibling (h' ! 2) = None \<and> NextSibling (h' ! 2) = None)"
proof -
  have r: "Parent (exampleHeap ! 0) = None"
    by (simp add: exampleHeap_def newNode_def)
  have c: "childrenOf exampleHeap 0 [1, 2, 3]"
    by (simp add: childrenOf_def exampleHeap_def newNode_def)
  have d: "childrenOf exampleHeap 2 [4]"
    by (simp add: childrenOf_def exampleHeap_def newNode_def)
  have m: "(2::nat) \<in> set [1, 2, 3]" by simp
  from remove_detaches[of exampleHeap 0] r have "remove exampleHeap 0 = Inr exampleHeap"
    by blast
  moreover from remove_detaches[of exampleHeap 2 0 "[1, 2, 3]"] c m d
  have "\<exists>h'. remove exampleHeap 2 = Inr h' \<and> childrenOf h' 0 [1, 3] \<and> childrenOf h' 2 [4] \<and>
      Parent (h' ! 2) = None \<and> PrevSibling (h' ! 2) = None \<and> NextSibling (h' ! 2) = None"
    by auto
  ultimately show ?thesis using r c d by blast
qed

section \<open>Properties of the parser\<close>

subsection \<open>What a step leaves alone\<close>

lemma addChild_error: "addChild h p n = Inl e \<Longrightarrow> e = NilDereference"
  by (auto simp: addChild_def Let_def split: option.splits)

lemma addSibling_error: "addSibling h s n = Inl e \<Longrightarrow> e = NonTermination"
  by (auto simp: addSibling_def Let_def split: option.splits)

lemma walkUp_error: "walkUp h k pv = Inl e \<Longrightarrow> e = NilDereference"
  by (induction h k pv rule: walkUp.induct) (auto split: option.splits)

lemma attach_error: "attach p n = Inl e \<Longrightarrow> e = NilDereference \<or> e = NonTermination"
  unfolding attach_def Let_def
  by (auto split: option.splits sum.splits if_splits
      dest: addChild_error addSibling_error walkUp_error)

lemma attach_frame:
  "attach p n = Inr p' \<Longrightarrow> p' = p\<lparr>p_heap := p_heap p', p_prev := p_prev p'\<rparr>"
  unfolding attach_def Let_def
  by (auto split: option.splits sum.splits if_splits)

lemma missingDeclaration_frame:
  "missingDeclaration p = Inr p' \<Longrightarrow>
     p' = p\<lparr>p_heap := p_heap p', p_prev := p_prev p', p_level := p_level p'\<rparr>"
  unfolding missingDeclaration_def Let_def
  by (auto split: option.splits sum.splits if_splits)

lemma streamMark_frame:
  "streamMark p n c = (p', c') \<Longrightarrow>
     p' = p\<lparr>p_streamNode := p_streamNode p', p_streamNodePrev := p_streamNodePrev p'\<rparr>"
  unfolding streamMark_def
  by (auto split: option.splits if_splits)

subsection \<open>Namespace declarations\<close>




subsection \<open>CDATA sections and text\<close>




subsection \<open>Rejecting a candidate\<close>

text \<open>
  C2.  The reject path.  An end tag arrives while a candidate \<open>sn\<close> is open and the counter
  of open tags is 1, so that it reaches 0; a filter is set and selects nothing in the
  document.  Then the step does not return: the loop continues with the candidate removed
  from the tree, the cursor on the node saved when the candidate was found, and no
  candidate.  Of the well-linked children \<open>cs\<close> of the candidate's parent only the
  candidate is taken out; the others, those before it included, stay children of the
  parent in their order, and no node but the candidate loses its parent.
\<close>

theorem endElement_reject:
  assumes sn: "p_streamNode p = Some sn"
    and f: "p_streamElementFilter p = Some f"
    and nomatch: "QuerySelector (p_heap p) (p_doc p) f = None"
    and c: "childrenOf (p_heap p) q cs" and m: "sn \<in> set cs"
  shows "\<exists>h'. endElement p 1 =
            Continue (p\<lparr>p_level := p_level p - 1, p_heap := h', p_prev := p_streamNodePrev p,
                        p_streamNode := None, p_streamNodePrev := None\<rparr>) 0 \<and>
          remove (p_heap p) sn = Inr h' \<and>
          childrenOf h' q (remove1 sn cs) \<and>
          Parent (h' ! sn) = None \<and>
          (\<forall>x. x \<noteq> sn \<longrightarrow> Parent (h' ! x) = Parent (p_heap p ! x)) \<and>
          spliced (p_heap p) q sn h'"
proof -
  from m obtain pre post where cs: "cs = pre @ sn # post" by (auto dest: split_list)
  from c have "distinct cs" by (simp add: childrenOf_def)
  with cs have r1: "remove1 sn cs = pre @ post" by (simp add: remove1_append)
  from c cs remove_children[of "p_heap p" q pre sn post]
  obtain h' where r: "remove (p_heap p) sn = Inr h'" and sp: "spliced (p_heap p) q sn h'"
    and c': "childrenOf h' q (pre @ post)" by blast
  from sp have par: "Parent (h' ! sn) = None"
    "\<forall>x. x \<noteq> sn \<longrightarrow> Parent (h' ! x) = Parent (p_heap p ! x)"
    by (simp_all add: spliced_def)
  have "endElement p 1 =
            Continue (p\<lparr>p_level := p_level p - 1, p_heap := h', p_prev := p_streamNodePrev p,
                        p_streamNode := None, p_streamNodePrev := None\<rparr>) 0"
    using sn f nomatch r by (simp add: endElement_def Let_def)
  with r sp c' r1 par show ?thesis by auto
qed


theorem endElement_reject_witness:
  "\<exists>h'. endElement
           ((createParser (newDecoder [] EOF))
              \<lparr>p_heap := exampleHeap, p_level := 2, p_prev := Some 4,
               p_streamElementXPath := Some (\<lambda>h t. Some 2),
               p_streamElementFilter := Some (\<lambda>h t. None),
               p_streamNode := Some 2, p_streamNodePrev := Some 1\<rparr>) 1
         = Continue
             ((createParser (newDecoder [] EOF))
                \<lparr>p_heap := h', p_level := 1, p_prev := Some 1,
                 p_streamElementXPath := Some (\<lambda>h t. Some 2),
                 p_streamElementFilter := Some (\<lambda>h t. None),
                 p_streamNode := None, p_streamNodePrev := None\<rparr>) 0 \<and>
        childrenOf h' 0 [1, 3] \<and> Parent (h' ! 1) = Some 0 \<and> Parent (h' ! 2) = None"
proof -
  let ?p = "(createParser (newDecoder [] EOF))
              \<lparr>p_heap := exampleHeap, p_level := 2, p_prev := Some 4,
               p_streamElementXPath := Some (\<lambda>h t. Some 2),
               p_streamElementFilter := Some (\<lambda>h t. None),
               p_streamNode := Some 2, p_streamNodePrev := Some 1\<rparr>"
  have sn: "p_streamNode ?p = Some 2" by simp
  have f: "p_streamElementFilter ?p = Some (\<lambda>h t. None)" by simp
  have nm: "QuerySelector (p_heap ?p) (p_doc ?p) (\<lambda>h t. None) = None"
    by (simp add: QuerySelector_def)
  have c: "childrenOf (p_heap ?p) 0 [1, 2, 3]"
    by (simp add: childrenOf_def exampleHeap_def newNode_def)
  have m: "(2::nat) \<in> set [1, 2, 3]" by simp
  have p1: "Parent (p_heap ?p ! 1) = Some 0" by (simp add: exampleHeap_def newNode_def)
  from endElement_reject[OF sn f nm c m] p1 show ?thesis
    by (auto simp: createParser_def)
qed

subsection \<open>Yielding a candidate and releasing it\<close>

lemma removePrevSiblings_children:
  "childrenOf h q (pre @ sn # post) \<Longrightarrow>
   \<exists>h1. removePrevSiblings h sn = Some (Inr h1) \<and> childrenOf h1 q (sn # post) \<and>
        (\<forall>x. Parent (h1 ! x) = (if x \<in> set pre then None else Parent (h ! x)))"
proof (induction pre arbitrary: h rule: rev_induct)
  case Nil
  then have "seg h None (sn # post) None" by (simp add: childrenOf_def)
  then have "PrevSibling (h ! sn) = None" by (simp add: seg_Cons)
  with Nil show ?case by (simp add: removePrevSiblings.simps)
next
  case (snoc a pre)
  from snoc.prems have c: "childrenOf h q (pre @ a # sn # post)" by simp
  then have "seg h None ((pre @ [a]) @ sn # post) None" by (simp add: childrenOf_def)
  from seg_split[OF this] have pv: "PrevSibling (h ! sn) = Some a" by simp
  from remove_children[OF c] obtain h2 where r: "remove h a = Inr h2"
    and sp: "spliced h q a h2" and c2: "childrenOf h2 q (pre @ sn # post)" by blast
  from snoc.IH[OF c2] obtain h1 where r1: "removePrevSiblings h2 sn = Some (Inr h1)"
    and c1: "childrenOf h1 q (sn # post)"
    and p1: "\<forall>x. Parent (h1 ! x) = (if x \<in> set pre then None else Parent (h2 ! x))" by blast
  from pv r r1 have "removePrevSiblings h sn = Some (Inr h1)"
    by (subst removePrevSiblings.simps) simp
  moreover from sp have "\<forall>x. Parent (h2 ! x) = (if x = a then None else Parent (h ! x))"
    by (simp add: spliced_def)
  with p1 have "\<forall>x. Parent (h1 ! x) = (if x \<in> set (pre @ [a]) then None else Parent (h ! x))"
    by auto
  ultimately show ?case using c1 by blast
qed

lemma release_children:
  assumes c: "childrenOf (p_heap p) q (pre @ sn # post)" and s: "p_streamNode p = Some sn"
  shows "\<exists>h'. release p = Inr (p\<lparr>p_heap := h', p_prev := Some q, p_streamNode := None,
                                   p_streamNodePrev := None\<rparr>) \<and>
              childrenOf h' q post \<and>
              (\<forall>x. Parent (h' ! x) = (if x \<in> set (pre @ [sn]) then None else Parent (p_heap p ! x)))"
proof -
  from removePrevSiblings_children[OF c] obtain h1
    where r1: "removePrevSiblings (p_heap p) sn = Some (Inr h1)"
      and c1: "childrenOf h1 q (sn # post)"
      and p1: "\<forall>x. Parent (h1 ! x) = (if x \<in> set pre then None else Parent (p_heap p ! x))"
    by blast
  from c1 have par: "Parent (h1 ! sn) = Some q" by (simp add: childrenOf_def)
  from remove_children[of h1 q "[]" sn post] c1 obtain h2 where r2: "remove h1 sn = Inr h2"
    and sp: "spliced h1 q sn h2" and c2: "childrenOf h2 q post" by auto
  from sp have "\<forall>x. Parent (h2 ! x) = (if x = sn then None else Parent (h1 ! x))"
    by (simp add: spliced_def)
  with p1 have "\<forall>x. Parent (h2 ! x) = (if x \<in> set (pre @ [sn]) then None else Parent (p_heap p ! x))"
    by auto
  moreover from s r1 r2 par
  have "release p = Inr (p\<lparr>p_heap := h2, p_prev := Some q, p_streamNode := None,
                                   p_streamNodePrev := None\<rparr>)"
    by (simp add: release_def)
  ultimately show ?thesis using c2 by blast
qed

text \<open>
  C1.  Releasing the node returned by the previous \<open>Read\<close>: when the candidate \<open>sn\<close> is
  a child of \<open>q\<close> with the siblings \<open>pre\<close> before it and \<open>post\<close> after it, \<open>Read\<close> first
  removes \<open>sn\<close> and every node of \<open>pre\<close> from the tree (they have no parent afterwards,
  every other node keeps its parent, and the children of \<open>q\<close> are \<open>post\<close>), puts the
  cursor on \<open>q\<close>, forgets the candidate, and then parses on.  For the input
  \<open><AAA><BBB>b1</BBB><BBB>b2</BBB></AAA>\<close> with the target "every BBB under AAA": the
  first \<open>Read\<close> returns a node that serializes to \<open><BBB>b1</BBB>\<close>; releasing it detaches
  it, leaves \<open>AAA\<close> (address 2) without children and puts the cursor on \<open>AAA\<close>, the
  former parent; the second \<open>Read\<close> returns \<open><BBB>b2</BBB>\<close>; the third returns \<open>EOF\<close>.
\<close>

theorem stream_yield_prune:
  "(childrenOf (p_heap p) q (pre @ sn # post) \<and> p_streamNode p = Some sn \<longrightarrow>
      (\<exists>h'. release p = Inr (p\<lparr>p_heap := h', p_prev := Some q, p_streamNode := None,
                                   p_streamNodePrev := None\<rparr>) \<and>
            Read p = parse (p\<lparr>p_heap := h', p_prev := Some q, p_streamNode := None,
                              p_streamNodePrev := None\<rparr>) \<and>
            childrenOf h' q post \<and>
            (\<forall>x. Parent (h' ! x) =
                   (if x \<in> set (pre @ [sn]) then None else Parent (p_heap p ! x))))) \<and>
   (case Read (CreateStreamParser streamDoc EOF (selectPath [''AAA'', ''BBB'']) None) of
     (r1, p1) \<Rightarrow>
       (case r1 of
          Inl e \<Rightarrow> False
        | Inr n1 \<Rightarrow>
            OutputXML (p_heap p1) n1 True = Some ''<BBB>b1</BBB>'' \<and>
            (case release p1 of
               Inl e \<Rightarrow> False
             | Inr q1 \<Rightarrow>
                 Parent (p_heap q1 ! n1) = None \<and> p_prev q1 = Parent (p_heap p1 ! n1) \<and>
                 p_prev q1 = Some 2 \<and> Data (p_heap q1 ! 2) = ''AAA'' \<and>
                 FirstChild (p_heap q1 ! 2) = None \<and> p_streamNode q1 = None) \<and>
            (case Read p1 of
               (r2, p2) \<Rightarrow>
                 (case r2 of
                    Inl e \<Rightarrow> False
                  | Inr n2 \<Rightarrow>
                      OutputXML (p_heap p2) n2 True = Some ''<BBB>b2</BBB>'' \<and>
                      fst (Read p2) = Inl EOF))))"
proof (intro conjI impI)
  assume a: "childrenOf (p_heap p) q (pre @ sn # post) \<and> p_streamNode p = Some sn"
  from release_children[of p q pre sn post] a
  obtain h' where r: "release p = Inr (p\<lparr>p_heap := h', p_prev := Some q, p_streamNode := None,
                                   p_streamNodePrev := None\<rparr>)"
    and c: "childrenOf h' q post"
    and par: "\<forall>x. Parent (h' ! x) =
                   (if x \<in> set (pre @ [sn]) then None else Parent (p_heap p ! x))"
    by blast
  from r have "Read p = parse (p\<lparr>p_heap := h', p_prev := Some q, p_streamNode := None,
                              p_streamNodePrev := None\<rparr>)"
    by (simp add: Read_def)
  with r c par
  show "\<exists>h'. release p = Inr (p\<lparr>p_heap := h', p_prev := Some q, p_streamNode := None,
                                   p_streamNodePrev := None\<rparr>) \<and>
            Read p = parse (p\<lparr>p_heap := h', p_prev := Some q, p_streamNode := None,
                              p_streamNodePrev := None\<rparr>) \<and>
            childrenOf h' q post \<and>
            (\<forall>x. Parent (h' ! x) =
                   (if x \<in> set (pre @ [sn]) then None else Parent (p_heap p ! x)))"
    by blast
next
  show "case Read (CreateStreamParser streamDoc EOF (selectPath [''AAA'', ''BBB'']) None) of
     (r1, p1) \<Rightarrow>
       (case r1 of
          Inl e \<Rightarrow> False
        | Inr n1 \<Rightarrow>
            OutputXML (p_heap p1) n1 True = Some ''<BBB>b1</BBB>'' \<and>
            (case release p1 of
               Inl e \<Rightarrow> False
             | Inr q1 \<Rightarrow>
                 Parent (p_heap q1 ! n1) = None \<and> p_prev q1 = Parent (p_heap p1 ! n1) \<and>
                 p_prev q1 = Some 2 \<and> Data (p_heap q1 ! 2) = ''AAA'' \<and>
                 FirstChild (p_heap q1 ! 2) = None \<and> p_streamNode q1 = None) \<and>
            (case Read p1 of
               (r2, p2) \<Rightarrow>
                 (case r2 of
                    Inl e \<Rightarrow> False
                  | Inr n2 \<Rightarrow>
                      OutputXML (p_heap p2) n2 True = Some ''<BBB>b2</BBB>'' \<and>
                      fst (Read p2) = Inl EOF)))"
    by code_simp
qed

theorem stream_yield_prune_witness:
  "\<exists>h'. release ((createParser (newDecoder [] EOF))
                    \<lparr>p_heap := exampleHeap, p_streamNode := Some 3\<rparr>)
          = Inr ((createParser (newDecoder [] EOF))
                    \<lparr>p_heap := h', p_prev := Some 0, p_streamNode := None\<rparr>) \<and>
        childrenOf h' 0 [] \<and> Parent (h' ! 1) = None \<and> Parent (h' ! 2) = None \<and>
        Parent (h' ! 3) = None \<and> Parent (h' ! 4) = Some 2"
proof -
  let ?p = "(createParser (newDecoder [] EOF))\<lparr>p_heap := exampleHeap, p_streamNode := Some 3\<rparr>"
  have c: "childrenOf (p_heap ?p) 0 ([1, 2] @ 3 # [])"
    by (simp add: childrenOf_def exampleHeap_def newNode_def)
  have s: "p_streamNode ?p = Some 3" by simp
  have p4: "Parent (p_heap ?p ! 4) = Some 2" by (simp add: exampleHeap_def newNode_def)
  from stream_yield_prune[of ?p 0 "[1, 2]" 3 "[]"] c s
  obtain h' where r: "release ?p = Inr (?p\<lparr>p_heap := h', p_prev := Some 0, p_streamNode := None,
                                   p_streamNodePrev := None\<rparr>)"
    and c': "childrenOf h' 0 []"
    and par: "\<forall>x. Parent (h' ! x) =
                   (if x \<in> set ([1, 2] @ [3]) then None else Parent (p_heap ?p ! x))"
    by blast
  from par p4 have "Parent (h' ! 1) = None" "Parent (h' ! 2) = None" "Parent (h' ! 3) = None"
    "Parent (h' ! 4) = Some 2" by simp_all
  with r c' show ?thesis by (auto simp: createParser_def)
qed

section \<open>Properties of the expression cache\<close>

lemma lru_Get_miss: "lru_Get c key = (c', None) \<Longrightarrow> c' = c"
  by (auto simp: lru_Get_def split: option.splits)

lemma lru_Get_hit:
  "lru_Get c key = (c', Some v) \<Longrightarrow> (key, v) \<in> set (entries c) \<and> set (entries c') \<subseteq> set (entries c)"
  by (auto simp: lru_Get_def split: option.splits dest: map_of_SomeD)

lemma lru_Add_entries: "set (entries (lru_Add c key v)) \<subseteq> insert (key, v) (set (entries c))"
  by (auto simp: lru_Add_def Let_def dest: in_set_butlastD)

lemma cacheSound_subset:
  assumes "cacheSound compile render g"
    and "set (entries c) \<subseteq> insert (k0, v0) (set (cachedEntries g))"
    and "\<forall>e os. e @ render os = k0 \<longrightarrow> compile e os = Inr v0"
  shows "cacheSound compile render (g\<lparr>lruCache := Some c\<rparr>)"
proof -
  have "\<And>k v e os. (k, v) \<in> set (entries c) \<Longrightarrow> e @ render os = k \<Longrightarrow> compile e os = Inr v"
  proof -
    fix k v e os assume kv: "(k, v) \<in> set (entries c)" and k: "e @ render os = k"
    from kv assms(2) have "(k, v) = (k0, v0) \<or> (k, v) \<in> set (cachedEntries g)" by blast
    then show "compile e os = Inr v"
    proof
      assume "(k, v) = (k0, v0)"
      with assms(3) k show ?thesis by simp
    next
      assume "(k, v) \<in> set (cachedEntries g)"
      with assms(1) k show ?thesis unfolding cacheSound_def by blast
    qed
  qed
  then show ?thesis unfolding cacheSound_def cachedEntries_def by auto
qed


lemma getQuery_disabled:
  "DisableSelectorCache g \<or> SelectorCacheMaxEntries g \<le> 0 \<Longrightarrow>
   getQuery compile render g expr opts = (compile expr opts, g)"
  by (simp add: getQuery_def)

lemma entries_cacheOnce: "entries (cacheOnce g) = cachedEntries g"
  by (simp add: cacheOnce_def cachedEntries_def lru_New_def split: option.splits)

lemma getQuery_enabled:
  assumes "\<not> (DisableSelectorCache g \<or> SelectorCacheMaxEntries g \<le> 0)"
    and "lru_Get (cacheOnce g) (expr @ render opts) = (c1, hit)"
  shows "getQuery compile render g expr opts =
     (case hit of
        Some v \<Rightarrow> (Inr v, g\<lparr>lruCache := Some c1\<rparr>)
      | None \<Rightarrow>
          (case compile expr opts of
             Inl err \<Rightarrow> (Inl err, g\<lparr>lruCache := Some c1\<rparr>)
           | Inr v \<Rightarrow> (Inr v, g\<lparr>lruCache := Some (lru_Add c1 (expr @ render opts) v)\<rparr>)))"
  using assms by (simp add: getQuery_def cacheOnce_def Let_def)


lemma getQuery_sound:
  assumes keys: "\<forall>e os e' os'. e @ render os = e' @ render os' \<longrightarrow> compile e os = compile e' os'"
    and sound: "cacheSound compile render g"
  shows "fst (getQuery compile render g expr opts) = compile expr opts \<and>
         cacheSound compile render (snd (getQuery compile render g expr opts)) \<and>
         (\<forall>x. compile expr opts = Inl x \<longrightarrow>
            cachedEntries (snd (getQuery compile render g expr opts)) = cachedEntries g)"
proof (cases "DisableSelectorCache g \<or> SelectorCacheMaxEntries g \<le> 0")
  case True
  from getQuery_disabled[OF True, of compile render expr opts] sound show ?thesis by simp
next
  case False
  let ?key = "expr @ render opts"
  obtain c1 hit where get: "lru_Get (cacheOnce g) ?key = (c1, hit)" by force
  note gq = getQuery_enabled[of g expr render opts c1 hit compile, OF False get]
  show ?thesis
  proof (cases hit)
    case None
    from lru_Get_miss[OF get[unfolded None]] have c1: "c1 = cacheOnce g" .
    show ?thesis
    proof (cases "compile expr opts")
      case (Inl x)
      have s1: "cacheSound compile render (g\<lparr>lruCache := Some c1\<rparr>)"
        using sound c1 by (simp add: cacheSound_def cachedEntries_def entries_cacheOnce[unfolded cachedEntries_def])
      have e1: "cachedEntries (g\<lparr>lruCache := Some c1\<rparr>) = cachedEntries g"
        using c1 entries_cacheOnce[of g] by (simp add: cachedEntries_def)
      from gq None Inl s1 e1 show ?thesis by simp
    next
      case (Inr v)
      have k: "\<forall>e os. e @ render os = ?key \<longrightarrow> compile e os = Inr v"
        using keys Inr by metis
      have "set (entries (lru_Add c1 ?key v)) \<subseteq> insert (?key, v) (set (cachedEntries g))"
        using lru_Add_entries[of c1 ?key v] c1 entries_cacheOnce[of g] by simp
      from cacheSound_subset[OF sound this k] gq None Inr show ?thesis by simp
    qed
  next
    case (Some v)
    from lru_Get_hit[OF get[unfolded Some]] entries_cacheOnce[of g]
    have m: "(?key, v) \<in> set (cachedEntries g)" and sub: "set (entries c1) \<subseteq> set (cachedEntries g)"
      by auto
    from m sound have cv: "compile expr opts = Inr v"
      unfolding cacheSound_def by blast
    have k: "\<forall>e os. e @ render os = ?key \<longrightarrow> compile e os = Inr v"
      using keys cv by metis
    from sub have "set (entries c1) \<subseteq> insert (?key, v) (set (cachedEntries g))" by blast
    from cacheSound_subset[OF sound this k] gq Some cv show ?thesis by simp
  qed
qed


lemma cacheSound_settings:
  "cacheSound compile render (g\<lparr>DisableSelectorCache := d, SelectorCacheMaxEntries := n\<rparr>)
     = cacheSound compile render g"
  by (simp add: cacheSound_def cachedEntries_def)

lemma cacheSound_initial: "cacheSound compile render initialCache"
  by (simp add: cacheSound_def cachedEntries_def initialCache_def)

lemma getQueries_sound:
  assumes keys: "\<forall>e os e' os'. e @ render os = e' @ render os' \<longrightarrow> compile e os = compile e' os'"
  shows "cacheSound compile render g \<Longrightarrow>
         fst (getQueries compile render g calls) = map (\<lambda>(d, n, expr, opts). compile expr opts) calls"
proof (induction calls arbitrary: g)
  case Nil
  show ?case by simp
next
  case (Cons call calls)
  obtain d n expr opts where call: "call = (d, n, expr, opts)" by (cases call) auto
  let ?g = "g\<lparr>DisableSelectorCache := d, SelectorCacheMaxEntries := n\<rparr>"
  obtain r g1 where q: "getQuery compile render ?g expr opts = (r, g1)" by force
  from Cons.prems have "cacheSound compile render ?g" by (simp add: cacheSound_settings)
  from getQuery_sound[OF keys this, of expr opts] q
  have r: "r = compile expr opts" and s1: "cacheSound compile render g1" by simp_all
  from Cons.IH[OF s1] call q r show ?case
    by (simp add: split_beta)
qed

text \<open>
  C10.  Provided that two calls with the same cache key compile to the same result (the
  key is the expression text followed by the rendering of the options), every call of
  \<open>getQuery\<close> in a run of the process returns exactly what compiling directly returns: it
  succeeds exactly when compilation succeeds, with the same expression, whatever the two
  settings are at each call.  For every state whose cache is sound, \<open>getQuery\<close> returns
  the direct result, returns the same with the cache disabled, keeps the cache sound, and
  after a failed compilation the entries of the cache are what they were and none of them
  has the key of the failed expression.
\<close>

theorem getQuery_transparent:
  assumes keys: "\<forall>e os e' os'. e @ render os = e' @ render os' \<longrightarrow> compile e os = compile e' os'"
  shows "fst (getQueries compile render initialCache calls)
           = map (\<lambda>(d, n, expr, opts). compile expr opts) calls \<and>
         (\<forall>g. cacheSound compile render g \<longrightarrow>
            fst (getQuery compile render g expr opts) = compile expr opts \<and>
            fst (getQuery compile render (g\<lparr>DisableSelectorCache := True\<rparr>) expr opts)
              = fst (getQuery compile render g expr opts) \<and>
            cacheSound compile render (snd (getQuery compile render g expr opts)) \<and>
            (\<forall>x. compile expr opts = Inl x \<longrightarrow>
               cachedEntries (snd (getQuery compile render g expr opts)) = cachedEntries g \<and>
               expr @ render opts \<notin> fst ` set (cachedEntries g)))"
proof (intro conjI allI impI)
  show "fst (getQueries compile render initialCache calls)
           = map (\<lambda>(d, n, expr, opts). compile expr opts) calls"
    by (rule getQueries_sound[OF keys cacheSound_initial])
next
  fix g assume s: "cacheSound compile render g"
  note gs = getQuery_sound[OF keys s, of expr opts]
  from gs show "fst (getQuery compile render g expr opts) = compile expr opts" by simp
  from gs show "cacheSound compile render (snd (getQuery compile render g expr opts))" by simp
  from gs show "fst (getQuery compile render (g\<lparr>DisableSelectorCache := True\<rparr>) expr opts)
              = fst (getQuery compile render g expr opts)"
    by (simp add: getQuery_def)
  fix x assume f: "compile expr opts = Inl x"
  with gs show "cachedEntries (snd (getQuery compile render g expr opts)) = cachedEntries g"
    by simp
  show "expr @ render opts \<notin> fst ` set (cachedEntries g)"
  proof
    assume "expr @ render opts \<in> fst ` set (cachedEntries g)"
    then obtain v where "(expr @ render opts, v) \<in> set (cachedEntries g)" by auto
    with s have "compile expr opts = Inr v" unfolding cacheSound_def by blast
    with f show False by simp
  qed
qed

theorem getQuery_transparent_witness:
  "fst (getQueries (\<lambda>e (os::unit). if e = ''['' then Inl ''bad'' else Inr e) (\<lambda>os. ''{}'')
          initialCache
          [(False, 50, ''a'', ()), (False, 50, ''['', ()), (False, 50, ''a'', ()),
           (True, 50, ''a'', ()), (False, 0, ''['', ())])
     = [Inr ''a'', Inl ''bad'', Inr ''a'', Inr ''a'', Inl ''bad'']"
proof -
  let ?compile = "\<lambda>e (os::unit). if e = ''['' then (Inl ''bad'' :: string + string) else Inr e"
  let ?render = "\<lambda>os::unit. ''{}''"
  have keys: "\<forall>e os e' os'. e @ ?render os = e' @ ?render os' \<longrightarrow> ?compile e os = ?compile e' os'"
    by simp
  let ?calls = "[(False, 50, ''a'', ()), (False, 50, ''['', ()), (False, 50, ''a'', ()),
           (True, 50, ''a'', ()), (False, 0, ''['', ())] :: (bool \<times> int \<times> string \<times> unit) list"
  have "fst (getQueries ?compile ?render initialCache ?calls)
          = map (\<lambda>(d, n, expr, opts). ?compile expr opts) ?calls"
    using getQuery_transparent[of ?render ?compile ?calls, OF keys] by (rule conjunct1)
  also have "\<dots> = [Inr ''a'', Inl ''bad'', Inr ''a'', Inr ''a'', Inl ''bad'']" by simp
  finally show ?thesis .
qed

section \<open>Properties of the content-type gate\<close>

lemma conc_nil: "[] \<in> conc A B \<longleftrightarrow> [] \<in> A \<and> [] \<in> B"
  by (auto simp: conc_def)

lemma conc_Cons:
  "c # w \<in> conc A B \<longleftrightarrow>
     (\<exists>u v. w = u @ v \<and> c # u \<in> A \<and> v \<in> B) \<or> ([] \<in> A \<and> c # w \<in> B)"
proof
  assume "c # w \<in> conc A B"
  then obtain u v where uv: "c # w = u @ v" "u \<in> A" "v \<in> B" by (auto simp: conc_def)
  show "(\<exists>u v. w = u @ v \<and> c # u \<in> A \<and> v \<in> B) \<or> ([] \<in> A \<and> c # w \<in> B)"
  proof (cases u)
    case Nil
    with uv show ?thesis by simp
  next
    case (Cons a u')
    with uv have "w = u' @ v" "c # u' \<in> A" by auto
    with uv show ?thesis by blast
  qed
next
  assume "(\<exists>u v. w = u @ v \<and> c # u \<in> A \<and> v \<in> B) \<or> ([] \<in> A \<and> c # w \<in> B)"
  then show "c # w \<in> conc A B"
  proof
    assume "\<exists>u v. w = u @ v \<and> c # u \<in> A \<and> v \<in> B"
    then obtain u v where "w = u @ v" "c # u \<in> A" "v \<in> B" by blast
    then have "c # w = (c # u) @ v" by simp
    with \<open>c # u \<in> A\<close> \<open>v \<in> B\<close> show ?thesis unfolding conc_def by blast
  next
    assume "[] \<in> A \<and> c # w \<in> B"
    then have "c # w = [] @ (c # w)" "[] \<in> A" "c # w \<in> B" by simp_all
    then show ?thesis unfolding conc_def by blast
  qed
qed

lemma star_Cons_dest:
  "x \<in> star A \<Longrightarrow> x = c # w \<Longrightarrow> \<exists>u v. w = u @ v \<and> c # u \<in> A \<and> v \<in> star A"
proof (induction arbitrary: w rule: star.induct)
  case star_empty
  then show ?case by simp
next
  case (star_step u v)
  show ?case
  proof (cases u)
    case Nil
    with star_step show ?thesis by simp
  next
    case (Cons a u')
    with star_step.prems have "w = u' @ v" "a = c" by auto
    with star_step.hyps Cons show ?thesis by blast
  qed
qed

lemma star_Cons:
  "c # w \<in> star A \<longleftrightarrow> (\<exists>u v. w = u @ v \<and> c # u \<in> A \<and> v \<in> star A)"
proof
  assume "c # w \<in> star A"
  then show "\<exists>u v. w = u @ v \<and> c # u \<in> A \<and> v \<in> star A" by (rule star_Cons_dest) simp
next
  assume "\<exists>u v. w = u @ v \<and> c # u \<in> A \<and> v \<in> star A"
  then obtain u v where "w = u @ v" "c # u \<in> A" "v \<in> star A" by blast
  then show "c # w \<in> star A" using star_step[of "c # u" A v] by simp
qed

lemma nullable_iff: "nullable r \<longleftrightarrow> [] \<in> lang r"
  by (induction r) (auto simp: conc_nil intro: star_empty)



lemma conc_mem: "w \<in> conc A B \<longleftrightarrow> (\<exists>u v. w = u @ v \<and> u \<in> A \<and> v \<in> B)"
  by (auto simp: conc_def)

lemma lang_deriv: "w \<in> lang (deriv c r) \<longleftrightarrow> c # w \<in> lang r"
proof (induction r arbitrary: w)
  case Zero
  show ?case by simp
next
  case One
  show ?case by simp
next
  case (Atom cs)
  show ?case by auto
next
  case (Alt r s)
  then show ?case by simp
next
  case (Seq r s)
  show ?case
  proof (cases "nullable r")
    case True
    then show ?thesis
      by (simp add: conc_mem[of w] conc_Cons Seq.IH nullable_iff)
  next
    case False
    then show ?thesis
      by (simp add: conc_mem[of w] conc_Cons Seq.IH nullable_iff)
  qed
next
  case (Star r)
  show ?case by (simp add: conc_mem[of w] star_Cons Star.IH)
qed

lemma matchPrefix_iff: "matchPrefix r s \<longleftrightarrow> (\<exists>u v. s = u @ v \<and> u \<in> lang r)"
proof (induction s arbitrary: r)
  case Nil
  show ?case by (simp add: nullable_iff)
next
  case (Cons c cs)
  have "(\<exists>u v. c # cs = u @ v \<and> u \<in> lang r) \<longleftrightarrow>
        [] \<in> lang r \<or> (\<exists>u v. cs = u @ v \<and> c # u \<in> lang r)"
  proof
    assume "\<exists>u v. c # cs = u @ v \<and> u \<in> lang r"
    then obtain u v where uv: "c # cs = u @ v" "u \<in> lang r" by blast
    show "[] \<in> lang r \<or> (\<exists>u v. cs = u @ v \<and> c # u \<in> lang r)"
    proof (cases u)
      case Nil
      with uv show ?thesis by simp
    next
      case (Cons a u')
      with uv have "cs = u' @ v" "c # u' \<in> lang r" by auto
      then show ?thesis by blast
    qed
  next
    assume "[] \<in> lang r \<or> (\<exists>u v. cs = u @ v \<and> c # u \<in> lang r)"
    then show "\<exists>u v. c # cs = u @ v \<and> u \<in> lang r"
    proof
      assume "[] \<in> lang r"
      then have "c # cs = [] @ (c # cs) \<and> [] \<in> lang r" by simp
      then show ?thesis by blast
    next
      assume "\<exists>u v. cs = u @ v \<and> c # u \<in> lang r"
      then obtain u v where "cs = u @ v" "c # u \<in> lang r" by blast
      then have "c # cs = (c # u) @ v \<and> c # u \<in> lang r" by simp
      then show ?thesis by blast
    qed
  qed
  then show ?case by (simp add: Cons.IH nullable_iff lang_deriv)
qed


lemma MatchString_iff:
  "MatchString r s \<longleftrightarrow> (\<exists>u v w. s = u @ v @ w \<and> v \<in> lang r)"
proof
  assume "MatchString r s"
  then obtain t where t: "t \<in> set (suffixes s)" "matchPrefix r t"
    by (auto simp: MatchString_def list_ex_iff)
  from t(1) obtain u where u: "s = u @ t" by (auto simp: suffix_def)
  from t(2) obtain v w where "t = v @ w" "v \<in> lang r" by (auto simp: matchPrefix_iff)
  with u show "\<exists>u v w. s = u @ v @ w \<and> v \<in> lang r" by blast
next
  assume "\<exists>u v w. s = u @ v @ w \<and> v \<in> lang r"
  then obtain u v w where s: "s = u @ v @ w" and v: "v \<in> lang r" by blast
  from s have "v @ w \<in> set (suffixes s)" by (simp add: suffix_def)
  moreover from v have "matchPrefix r (v @ w)" unfolding matchPrefix_iff by blast
  ultimately show "MatchString r s" unfolding MatchString_def list_ex_iff by blast
qed

text \<open>
  C8 (as amended).  \<open>LoadURL\<close> passes on the error of the request.  For a response it
  parses the body exactly when some substring of the Content-Type value is in the language
  of the pattern: \<open>application\<close>, \<open>image\<close>, \<open>message\<close> or \<open>model\<close>, a slash, optionally a
  run of word, dot and hyphen characters with an optional \<open>+\<close> after it, then optionally
  \<open>wb\<close>, then \<open>xml\<close>; or \<open>text/\<close>, optionally \<open>wb\<close>, then \<open>xml\<close>; letters in either
  case.  Otherwise the result is the error that carries the Content-Type value.
\<close>

theorem LoadURL_contentType:
  "LoadURL (Inl err) = Inl err \<and>
   LoadURL (Inr resp) =
     (if \<exists>u v w. contentType resp = u @ v @ w \<and> v \<in> lang xmlMIMERegex
      then Parse (body resp) (bodyFinal resp)
      else Inl (InvalidContentType (contentType resp)))"
  by (simp add: LoadURL_def MatchString_iff)

text \<open>
  The claim as stated fails: \<open>text/html\<close> is a \<open>text/...\<close> type and is rejected.
\<close>

theorem LoadURL_text_html_counterexample:
  "LoadURL (Inr \<lparr>contentType = ''text/html'', body = textDoc, bodyFinal = EOF\<rparr>)
     = Inl (InvalidContentType ''text/html'')"
  by code_simp

section \<open>Invariants of the heaps built by the parser\<close>

lemma lastSibling_end:
  assumes r: "pointersInRange h" and asc: "nextAscends h"
  shows "a < length h \<Longrightarrow>
         \<exists>s. lastSibling h a = Some s \<and> s < length h \<and> NextSibling (h ! s) = None \<and>
             (s = a \<or> (\<exists>x < length h. NextSibling (h ! x) = Some s))"
proof (induction "length h - a" arbitrary: a rule: less_induct)
  case less
  show ?case
  proof (cases "NextSibling (h ! a)")
    case None
    with less.prems show ?thesis by (subst lastSibling.simps) simp
  next
    case (Some b)
    from r less.prems Some have bl: "b < length h" unfolding pointersInRange_def by blast
    from asc less.prems Some have ab: "a < b" unfolding nextAscends_def by blast
    from bl ab have "length h - b < length h - a" by simp
    from less.hyps[OF this bl] obtain s where s: "lastSibling h b = Some s" "s < length h"
      "NextSibling (h ! s) = None" "s = b \<or> (\<exists>x < length h. NextSibling (h ! x) = Some s)"
      by blast
    from s(1) Some have "lastSibling h a = Some s" by (subst lastSibling.simps) simp
    moreover from s(4) Some less.prems have "\<exists>x < length h. NextSibling (h ! x) = Some s"
      by blast
    ultimately show ?thesis using s by blast
  qed
qed

lemma lastSibling_in_seg:
  "seg h pv xs None \<Longrightarrow> a \<in> set xs \<Longrightarrow> lastSibling h a = Some (last xs)"
proof (induction xs arbitrary: pv a)
  case Nil
  then show ?case by simp
next
  case (Cons x xs)
  from Cons.prems(1) have nx: "NextSibling (h ! x) = (case xs of [] \<Rightarrow> None | y # _ \<Rightarrow> Some y)"
    and sg: "seg h (Some x) xs None" by (simp_all add: seg_Cons)
  show ?case
  proof (cases xs)
    case Nil
    with Cons.prems nx show ?thesis by (subst lastSibling.simps) simp
  next
    case (Cons y ys)
    show ?thesis
    proof (cases "a = x")
      case True
      from Cons.IH[OF sg, of y] Cons have "lastSibling h y = Some (last xs)" by simp
      with nx Cons True show ?thesis by (subst lastSibling.simps) simp
    next
      case False
      with Cons.prems have "a \<in> set xs" by simp
      from Cons.IH[OF sg this] Cons show ?thesis by simp
    qed
  qed
qed

lemma addChild_linked:
  assumes f: "fresh h n" and pn: "parent \<noteq> n" and pl: "parent < length h"
    and r: "pointersInRange h"
  shows "addChild h parent n = Inl NilDereference \<or>
         (\<exists>h'. addChild h parent n = Inr h' \<and> childLinked h parent n h')"
proof (cases "FirstChild (h ! parent)")
  case None
  with f pn pl show ?thesis
    by (simp add: addChild_def childLinked_def samePayload_def nth_setters fresh_def Let_def)
next
  case (Some fc)
  show ?thesis
  proof (cases "LastChild (h ! parent)")
    case None
    with Some pn show ?thesis by (simp add: addChild_def nth_setters Let_def)
  next
    case l: (Some l)
    from r pl l have ll: "l < length h" unfolding pointersInRange_def by blast
    from f pl l have ln: "l \<noteq> n" unfolding fresh_def by blast
    from f have nl: "n < length h" by (simp add: fresh_def)
    from Some l f pn pl ll ln nl show ?thesis
      by (simp add: addChild_def childLinked_def samePayload_def nth_setters fresh_def Let_def)
  qed
qed

lemma addSibling_linked:
  assumes f: "fresh h n" and sl: "s < length h" and sn: "s \<noteq> n"
    and r: "pointersInRange h" and ls: "lastSibling h sib = Some s"
  shows "\<exists>h'. addSibling h sib n = Inr h' \<and> siblingLinked h s n h'"
proof (cases "Parent (h ! s)")
  case None
  with f sl sn ls show ?thesis
    by (simp add: addSibling_def siblingLinked_def samePayload_def nth_setters fresh_def Let_def)
next
  case (Some p)
  from r sl Some have plen: "p < length h" unfolding pointersInRange_def by blast
  from f have nl: "n < length h" by (simp add: fresh_def)
  from Some f sl sn ls plen nl show ?thesis
    by (simp add: addSibling_def siblingLinked_def samePayload_def nth_setters fresh_def Let_def)
qed


lemma seg_None_last:
  "seg h pv xs nx \<Longrightarrow> distinct xs \<Longrightarrow> x \<in> set xs \<Longrightarrow> NextSibling (h ! x) = None \<Longrightarrow>
   x = last xs"
proof (induction h pv xs nx rule: seg.induct)
  case (1 h pv nx)
  then show ?case by simp
next
  case (2 h pv y nx)
  then show ?case by simp
next
  case (3 h pv y z zs nx)
  then show ?case by auto
qed

lemma childLinked_inv:
  assumes inv: "heapInv h ks" and f: "fresh h n" and pl: "parent < length h" and pn: "parent \<noteq> n"
    and cl: "childLinked h parent n h'"
  shows "heapInv h' (if parent = 0 then ks @ [n] else ks)"
proof -
  from inv have r: "pointersInRange h" and asc: "nextAscends h" and own: "lastChildOwned h"
    and top: "topChildren h ks" and doc: "Type (h ! 0) = DocumentNode" "level (h ! 0) = 0"
      "Parent (h ! 0) = None"
    by (simp_all add: heapInv_def)
  from cl have len: "length h' = length h" and pay: "samePayload h h'"
    by (simp_all add: childLinked_def samePayload_def)
  from cl have P: "\<And>x. Parent (h' ! x) = (if x = n then Some parent else Parent (h ! x))"
    and F: "\<And>x. FirstChild (h' ! x) =
            (if x = parent \<and> FirstChild (h ! parent) = None then Some n else FirstChild (h ! x))"
    and L: "\<And>x. LastChild (h' ! x) = (if x = parent then Some n else LastChild (h ! x))"
    and PV: "\<And>x. PrevSibling (h' ! x) =
            (if x = n \<and> FirstChild (h ! parent) \<noteq> None then LastChild (h ! parent)
             else PrevSibling (h ! x))"
    and NX: "\<And>x. NextSibling (h' ! x) =
            (if FirstChild (h ! parent) \<noteq> None \<and> LastChild (h ! parent) = Some x then Some n
             else NextSibling (h ! x))"
    by (simp_all add: childLinked_def)
  from f have nlen: "Suc n = length h" and nl: "n < length h"
    and fr: "\<And>a. a < length h \<Longrightarrow> Parent (h ! a) \<noteq> Some n \<and> FirstChild (h ! a) \<noteq> Some n \<and>
        LastChild (h ! a) \<noteq> Some n \<and> PrevSibling (h ! a) \<noteq> Some n \<and> NextSibling (h ! a) \<noteq> Some n"
    and fn: "Parent (h ! n) = None" "PrevSibling (h ! n) = None" "NextSibling (h ! n) = None"
    by (auto simp: fresh_def)
  from pl pn nlen have n0: "n \<noteq> 0" by auto
  have r': "pointersInRange h'"
    unfolding pointersInRange_def len
  proof (intro allI impI)
    fix a b assume a: "a < length h"
      and b: "Parent (h' ! a) = Some b \<or> FirstChild (h' ! a) = Some b \<or> LastChild (h' ! a) = Some b \<or>
         PrevSibling (h' ! a) = Some b \<or> NextSibling (h' ! a) = Some b"
    from r a have old: "\<And>c. Parent (h ! a) = Some c \<or> FirstChild (h ! a) = Some c \<or>
        LastChild (h ! a) = Some c \<or> PrevSibling (h ! a) = Some c \<or> NextSibling (h ! a) = Some c
        \<Longrightarrow> c < length h" unfolding pointersInRange_def by blast
    from r pl have oldp: "\<And>c. LastChild (h ! parent) = Some c \<Longrightarrow> c < length h"
      unfolding pointersInRange_def by blast
    from b show "b < length h"
      unfolding P F L PV NX using old oldp pl nl by (auto split: if_splits)
  qed
  have asc': "nextAscends h'"
    unfolding nextAscends_def len
  proof (intro allI impI)
    fix a b assume a: "a < length h" and b: "NextSibling (h' ! a) = Some b"
    show "a < b"
    proof (cases "FirstChild (h ! parent) \<noteq> None \<and> LastChild (h ! parent) = Some a")
      case True
      with b NX[of a] have "b = n" by (auto split: if_splits)
      moreover from True fr[OF pl] have "a \<noteq> n" by auto
      ultimately show ?thesis using a nlen by auto
    next
      case False
      with b NX[of a] have "NextSibling (h ! a) = Some b" by (auto split: if_splits)
      with asc a show ?thesis unfolding nextAscends_def by blast
    qed
  qed
  have own': "lastChildOwned h'"
    unfolding lastChildOwned_def len
  proof (intro allI impI)
    fix p l assume p: "p < length h" and l: "LastChild (h' ! p) = Some l"
    show "Parent (h' ! l) = Some p"
    proof (cases "p = parent")
      case True
      with l L have "l = n" by simp
      with P True show ?thesis by simp
    next
      case False
      with l L have ol: "LastChild (h ! p) = Some l" by simp
      with own p have "Parent (h ! l) = Some p" unfolding lastChildOwned_def by blast
      moreover from ol fr[OF p] have "l \<noteq> n" by auto
      ultimately show ?thesis using P by simp
    qed
  qed
  from top have c: "childrenOf h 0 ks" and clo: "\<And>a. a < length h \<Longrightarrow> Parent (h ! a) = Some 0 \<Longrightarrow> a \<in> set ks"
    by (auto simp: topChildren_def)
  from c have zl: "0 < length h" and zk: "0 \<notin> set ks" and dk: "distinct ks"
    and sk: "seg h None ks None" and pk: "\<forall>k \<in> set ks. Parent (h ! k) = Some 0"
    and fk: "FirstChild (h ! 0) = (if ks = [] then None else Some (hd ks))"
    and lk: "LastChild (h ! 0) = (if ks = [] then None else Some (last ks))"
    by (auto simp: childrenOf_def)
  from pk fn have nk: "n \<notin> set ks" by auto
  have top': "topChildren h' (if parent = 0 then ks @ [n] else ks)"
  proof (cases "parent = 0")
    case True
    have sg: "seg h' None (ks @ [n]) None"
    proof (cases "ks = []")
      case True
      with fk \<open>parent = 0\<close> PV NX fn fr[OF pl] nl len show ?thesis by simp
    next
      case False
      with fk lk \<open>parent = 0\<close> have fc: "FirstChild (h ! parent) \<noteq> None"
        and lc: "LastChild (h ! parent) = Some (last ks)" by simp_all
      have "seg h' None ks (Some n)"
      proof (rule seg_relink_last[OF sk len dk], rule ballI)
        fix x assume "x \<in> set ks"
        with nk have "x \<noteq> n" by auto
        then show "PrevSibling (h' ! x) = PrevSibling (h ! x) \<and>
          NextSibling (h' ! x) = (if x = last ks then Some n else NextSibling (h ! x))"
          using PV NX fc lc by auto
      qed
      moreover have "seg h' (Some (last ks)) [n] None"
        using PV NX fc lc fn fr[OF pl] nl len by simp
      ultimately show ?thesis using False by (simp add: seg_append)
    qed
    have "childrenOf h' 0 (ks @ [n])"
      unfolding childrenOf_def
      using zl len zk n0 dk nk sg pk P F L fk True by (auto simp: hd_append)
    moreover have "\<forall>a < length h'. Parent (h' ! a) = Some 0 \<longrightarrow> a \<in> set (ks @ [n])"
      using clo P len by (auto split: if_splits)
    ultimately show ?thesis using True by (simp add: topChildren_def)
  next
    case False
    have nolast: "\<And>x. x \<in> set ks \<Longrightarrow> LastChild (h ! parent) \<noteq> Some x"
    proof
      fix x assume x: "x \<in> set ks" and "LastChild (h ! parent) = Some x"
      with own pl have "Parent (h ! x) = Some parent" unfolding lastChildOwned_def by blast
      with pk x False show False by auto
    qed
    have "seg h' None ks None = seg h None ks None"
    proof (rule seg_frame[OF len], rule ballI)
      fix x assume x: "x \<in> set ks"
      with nk have "x \<noteq> n" by auto
      with nolast[OF x] show "PrevSibling (h' ! x) = PrevSibling (h ! x) \<and>
        NextSibling (h' ! x) = NextSibling (h ! x)" using PV NX by simp
    qed
    with sk have sg: "seg h' None ks None" by simp
    have "childrenOf h' 0 ks"
      unfolding childrenOf_def
      using zl len zk dk sg pk nk P F L fk lk False by auto
    moreover have "\<forall>a < length h'. Parent (h' ! a) = Some 0 \<longrightarrow> a \<in> set ks"
      using clo P len False by (auto split: if_splits)
    ultimately show ?thesis using False by (simp add: topChildren_def)
  qed
  from pay doc have "Type (h' ! 0) = DocumentNode" "level (h' ! 0) = 0"
    by (simp_all add: samePayload_def)
  moreover from P n0 doc have "Parent (h' ! 0) = None" by simp
  ultimately show ?thesis using r' asc' own' top' by (simp add: heapInv_def)
qed


lemma siblingLinked_inv:
  assumes inv: "heapInv h ks" and f: "fresh h n" and sl: "s < length h" and sn: "s \<noteq> n"
    and se: "NextSibling (h ! s) = None" and lk: "siblingLinked h s n h'"
  shows "heapInv h' (if s \<in> set ks then ks @ [n] else ks)"
proof -
  from inv have r: "pointersInRange h" and asc: "nextAscends h" and own: "lastChildOwned h"
    and top: "topChildren h ks" and doc: "Type (h ! 0) = DocumentNode" "level (h ! 0) = 0"
      "Parent (h ! 0) = None"
    by (simp_all add: heapInv_def)
  from lk have len: "length h' = length h" and pay: "samePayload h h'"
    by (simp_all add: siblingLinked_def samePayload_def)
  from lk have P: "\<And>x. Parent (h' ! x) = (if x = n then Parent (h ! s) else Parent (h ! x))"
    and F: "\<And>x. FirstChild (h' ! x) = FirstChild (h ! x)"
    and L: "\<And>x. LastChild (h' ! x) = (if Parent (h ! s) = Some x then Some n else LastChild (h ! x))"
    and PV: "\<And>x. PrevSibling (h' ! x) = (if x = n then Some s else PrevSibling (h ! x))"
    and NX: "\<And>x. NextSibling (h' ! x) = (if x = s then Some n else NextSibling (h ! x))"
    by (simp_all add: siblingLinked_def)
  from f have nlen: "Suc n = length h" and nl: "n < length h"
    and fr: "\<And>a. a < length h \<Longrightarrow> Parent (h ! a) \<noteq> Some n \<and> FirstChild (h ! a) \<noteq> Some n \<and>
        LastChild (h ! a) \<noteq> Some n \<and> PrevSibling (h ! a) \<noteq> Some n \<and> NextSibling (h ! a) \<noteq> Some n"
    and fn: "Parent (h ! n) = None" "PrevSibling (h ! n) = None" "NextSibling (h ! n) = None"
      "FirstChild (h ! n) = None" "LastChild (h ! n) = None"
    by (auto simp: fresh_def)
  from sl sn nlen have n0: "n \<noteq> 0" by auto
  from sl sn nlen have sltn: "s < n" by auto
  from r sl have ps: "\<And>c. Parent (h ! s) = Some c \<Longrightarrow> c < length h"
    unfolding pointersInRange_def by blast
  have r': "pointersInRange h'"
    unfolding pointersInRange_def len
  proof (intro allI impI)
    fix a b assume a: "a < length h"
      and b: "Parent (h' ! a) = Some b \<or> FirstChild (h' ! a) = Some b \<or> LastChild (h' ! a) = Some b \<or>
         PrevSibling (h' ! a) = Some b \<or> NextSibling (h' ! a) = Some b"
    from r a have old: "\<And>c. Parent (h ! a) = Some c \<or> FirstChild (h ! a) = Some c \<or>
        LastChild (h ! a) = Some c \<or> PrevSibling (h ! a) = Some c \<or> NextSibling (h ! a) = Some c
        \<Longrightarrow> c < length h" unfolding pointersInRange_def by blast
    from b show "b < length h"
      unfolding P F L PV NX using old ps sl nl by (auto split: if_splits)
  qed
  have asc': "nextAscends h'"
    unfolding nextAscends_def len
  proof (intro allI impI)
    fix a b assume a: "a < length h" and b: "NextSibling (h' ! a) = Some b"
    show "a < b"
    proof (cases "a = s")
      case True
      with b NX[of a] sltn show ?thesis by simp
    next
      case False
      with b NX[of a] have "NextSibling (h ! a) = Some b" by simp
      with asc a show ?thesis unfolding nextAscends_def by blast
    qed
  qed
  have own': "lastChildOwned h'"
    unfolding lastChildOwned_def len
  proof (intro allI impI)
    fix p l assume p: "p < length h" and l: "LastChild (h' ! p) = Some l"
    show "Parent (h' ! l) = Some p"
    proof (cases "Parent (h ! s) = Some p")
      case True
      with l L[of p] have "l = n" by simp
      with P True show ?thesis by simp
    next
      case False
      with l L[of p] have ol: "LastChild (h ! p) = Some l" by simp
      with own p have "Parent (h ! l) = Some p" unfolding lastChildOwned_def by blast
      moreover from ol fr[OF p] have "l \<noteq> n" by auto
      ultimately show ?thesis using P by simp
    qed
  qed
  from top have c: "childrenOf h 0 ks" and clo: "\<And>a. a < length h \<Longrightarrow> Parent (h ! a) = Some 0 \<Longrightarrow> a \<in> set ks"
    by (auto simp: topChildren_def)
  from c have zl: "0 < length h" and zk: "0 \<notin> set ks" and dk: "distinct ks"
    and sk: "seg h None ks None" and pk: "\<forall>k \<in> set ks. Parent (h ! k) = Some 0"
    and fk: "FirstChild (h ! 0) = (if ks = [] then None else Some (hd ks))"
    and lstk: "LastChild (h ! 0) = (if ks = [] then None else Some (last ks))"
    by (auto simp: childrenOf_def)
  from pk fn have nk: "n \<notin> set ks" by auto
  have top': "topChildren h' (if s \<in> set ks then ks @ [n] else ks)"
  proof (cases "s \<in> set ks")
    case True
    from seg_None_last[OF sk dk True se] have sl2: "s = last ks" .
    from True have kne: "ks \<noteq> []" by auto
    from True pk have psz: "Parent (h ! s) = Some 0" by simp
    have "seg h' None ks (Some n)"
    proof (rule seg_relink_last[OF sk len dk], rule ballI)
      fix x assume "x \<in> set ks"
      with nk have "x \<noteq> n" by auto
      then show "PrevSibling (h' ! x) = PrevSibling (h ! x) \<and>
        NextSibling (h' ! x) = (if x = last ks then Some n else NextSibling (h ! x))"
        using PV NX sl2 by auto
    qed
    moreover have "seg h' (Some (last ks)) [n] None"
      using PV NX fn sl2 sn nl len by simp
    ultimately have sg: "seg h' None (ks @ [n]) None" using kne by (simp add: seg_append)
    have "childrenOf h' 0 (ks @ [n])"
      unfolding childrenOf_def
      using zl len zk n0 dk nk sg pk P F L fk psz kne by (auto simp: hd_append)
    moreover have "\<forall>a < length h'. Parent (h' ! a) = Some 0 \<longrightarrow> a \<in> set (ks @ [n])"
      using clo P len by (auto split: if_splits)
    ultimately show ?thesis using True by (simp add: topChildren_def)
  next
    case False
    with clo[OF sl] have psz: "Parent (h ! s) \<noteq> Some 0" by blast
    have "seg h' None ks None = seg h None ks None"
    proof (rule seg_frame[OF len], rule ballI)
      fix x assume x: "x \<in> set ks"
      with nk False have "x \<noteq> n" "x \<noteq> s" by auto
      then show "PrevSibling (h' ! x) = PrevSibling (h ! x) \<and>
        NextSibling (h' ! x) = NextSibling (h ! x)" using PV NX by simp
    qed
    with sk have sg: "seg h' None ks None" by simp
    have "childrenOf h' 0 ks"
      unfolding childrenOf_def
      using zl len zk dk sg pk nk P F L fk lstk psz by auto
    moreover have "\<forall>a < length h'. Parent (h' ! a) = Some 0 \<longrightarrow> a \<in> set ks"
      using clo P len psz by (auto split: if_splits)
    ultimately show ?thesis using False by (simp add: topChildren_def)
  qed
  from pay doc have "Type (h' ! 0) = DocumentNode" "level (h' ! 0) = 0"
    by (simp_all add: samePayload_def)
  moreover from P n0 doc have "Parent (h' ! 0) = None" by simp
  ultimately show ?thesis using r' asc' own' top' by (simp add: heapInv_def)
qed


lemma seg_grow: "seg h pv xs nx \<Longrightarrow> seg (h @ hs) pv xs nx"
  by (induction h pv xs nx rule: seg.induct) (auto simp: nth_append)

lemma heapInv_alloc:
  assumes inv: "heapInv h ks"
    and blank: "Parent nd = None" "FirstChild nd = None" "LastChild nd = None"
      "PrevSibling nd = None" "NextSibling nd = None"
  shows "heapInv (h @ [nd]) ks \<and> fresh (h @ [nd]) (length h)"
proof -
  from inv have r: "pointersInRange h" and asc: "nextAscends h" and own: "lastChildOwned h"
    and top: "topChildren h ks" and doc: "Type (h ! 0) = DocumentNode" "level (h ! 0) = 0"
      "Parent (h ! 0) = None"
    by (simp_all add: heapInv_def)
  from top have c: "childrenOf h 0 ks" and clo: "\<And>a. a < length h \<Longrightarrow> Parent (h ! a) = Some 0 \<Longrightarrow> a \<in> set ks"
    by (auto simp: topChildren_def)
  from c have zl: "0 < length h" by (simp add: childrenOf_def)
  have old: "\<And>a. a < length h \<Longrightarrow> (h @ [nd]) ! a = h ! a" by (simp add: nth_append)
  have new: "(h @ [nd]) ! length h = nd" by simp
  have cases: "\<And>a. a < length (h @ [nd]) \<Longrightarrow> a < length h \<or> a = length h" by auto
  have r': "pointersInRange (h @ [nd])"
    unfolding pointersInRange_def
  proof (intro allI impI)
    fix a b assume a: "a < length (h @ [nd])"
      and b: "Parent ((h @ [nd]) ! a) = Some b \<or> FirstChild ((h @ [nd]) ! a) = Some b \<or>
        LastChild ((h @ [nd]) ! a) = Some b \<or> PrevSibling ((h @ [nd]) ! a) = Some b \<or>
        NextSibling ((h @ [nd]) ! a) = Some b"
    from cases[OF a] show "b < length (h @ [nd])"
    proof
      assume al: "a < length h"
      with b old have "Parent (h ! a) = Some b \<or> FirstChild (h ! a) = Some b \<or>
        LastChild (h ! a) = Some b \<or> PrevSibling (h ! a) = Some b \<or> NextSibling (h ! a) = Some b"
        by simp
      with r al have "b < length h" unfolding pointersInRange_def by blast
      then show ?thesis by simp
    next
      assume "a = length h"
      with b new blank show ?thesis by simp
    qed
  qed
  have asc': "nextAscends (h @ [nd])"
    unfolding nextAscends_def
  proof (intro allI impI)
    fix a b assume a: "a < length (h @ [nd])" and b: "NextSibling ((h @ [nd]) ! a) = Some b"
    from cases[OF a] show "a < b"
    proof
      assume al: "a < length h"
      with b old asc show ?thesis unfolding nextAscends_def by simp
    next
      assume "a = length h"
      with b new blank show ?thesis by simp
    qed
  qed
  have own': "lastChildOwned (h @ [nd])"
    unfolding lastChildOwned_def
  proof (intro allI impI)
    fix p l assume p: "p < length (h @ [nd])" and l: "LastChild ((h @ [nd]) ! p) = Some l"
    from cases[OF p] show "Parent ((h @ [nd]) ! l) = Some p"
    proof
      assume pl: "p < length h"
      with l old have ol: "LastChild (h ! p) = Some l" by simp
      with r pl have "l < length h" unfolding pointersInRange_def by blast
      moreover from ol own pl have "Parent (h ! l) = Some p" unfolding lastChildOwned_def by blast
      ultimately show ?thesis using old by simp
    next
      assume "p = length h"
      with l new blank show ?thesis by simp
    qed
  qed
  from c have "childrenOf (h @ [nd]) 0 ks"
    unfolding childrenOf_def
    using seg_grow[of h None ks None "[nd]"] seg_in_range[of h None ks None]
    by (auto simp: nth_append)
  moreover have "\<forall>a < length (h @ [nd]). Parent ((h @ [nd]) ! a) = Some 0 \<longrightarrow> a \<in> set ks"
  proof (intro allI impI)
    fix a assume a: "a < length (h @ [nd])" and pa: "Parent ((h @ [nd]) ! a) = Some 0"
    from cases[OF a] show "a \<in> set ks"
    proof
      assume "a < length h"
      with pa old clo show ?thesis by simp
    next
      assume "a = length h"
      with pa new blank show ?thesis by simp
    qed
  qed
  ultimately have top': "topChildren (h @ [nd]) ks" by (simp add: topChildren_def)
  have inv': "heapInv (h @ [nd]) ks"
    using r' asc' own' top' doc zl by (simp add: heapInv_def nth_append)
  have "fresh (h @ [nd]) (length h)"
    unfolding fresh_def
  proof (intro conjI allI impI)
    fix a assume a: "a < length (h @ [nd])"
    from cases[OF a]
    have "Parent ((h @ [nd]) ! a) \<noteq> Some (length h) \<and> FirstChild ((h @ [nd]) ! a) \<noteq> Some (length h) \<and>
        LastChild ((h @ [nd]) ! a) \<noteq> Some (length h) \<and> PrevSibling ((h @ [nd]) ! a) \<noteq> Some (length h) \<and>
        NextSibling ((h @ [nd]) ! a) \<noteq> Some (length h)"
    proof
      assume al: "a < length h"
      from r al have "\<And>c. Parent (h ! a) = Some c \<or> FirstChild (h ! a) = Some c \<or>
        LastChild (h ! a) = Some c \<or> PrevSibling (h ! a) = Some c \<or> NextSibling (h ! a) = Some c
        \<Longrightarrow> c < length h" unfolding pointersInRange_def by blast
      from this[of "length h"] al old show ?thesis by auto
    next
      assume "a = length h"
      with new blank show ?thesis by simp
    qed
    then show "Parent ((h @ [nd]) ! a) \<noteq> Some (length h)"
      "FirstChild ((h @ [nd]) ! a) \<noteq> Some (length h)"
      "LastChild ((h @ [nd]) ! a) \<noteq> Some (length h)"
      "PrevSibling ((h @ [nd]) ! a) \<noteq> Some (length h)"
      "NextSibling ((h @ [nd]) ! a) \<noteq> Some (length h)" by simp_all
  qed (simp_all add: blank)
  with inv' show ?thesis by simp
qed


lemma addSibling_inv:
  assumes inv: "heapInv h ks" and f: "fresh h n" and sl: "sib < length h" and sn: "sib \<noteq> n"
  shows "\<exists>h' s. addSibling h sib n = Inr h' \<and> lastSibling h sib = Some s \<and>
           heapInv h' (if s \<in> set ks then ks @ [n] else ks) \<and> samePayload h h' \<and>
           (sib \<in> set ks \<longrightarrow> s \<in> set ks)"
proof -
  from inv have r: "pointersInRange h" and asc: "nextAscends h" and top: "topChildren h ks"
    by (simp_all add: heapInv_def)
  from lastSibling_end[OF r asc sl] obtain s where ls: "lastSibling h sib = Some s"
    and s: "s < length h" "NextSibling (h ! s) = None"
    and how: "s = sib \<or> (\<exists>x < length h. NextSibling (h ! x) = Some s)" by blast
  from how sn f have s_n: "s \<noteq> n" by (auto simp: fresh_def)
  from addSibling_linked[OF f s(1) s_n r ls] obtain h' where a: "addSibling h sib n = Inr h'"
    and lk: "siblingLinked h s n h'" by blast
  from siblingLinked_inv[OF inv f s(1) s_n s(2) lk]
  have i': "heapInv h' (if s \<in> set ks then ks @ [n] else ks)" .
  from lk have pay: "samePayload h h'" by (simp add: siblingLinked_def)
  have "sib \<in> set ks \<longrightarrow> s \<in> set ks"
  proof
    assume m: "sib \<in> set ks"
    from top have "seg h None ks None" by (simp add: topChildren_def childrenOf_def)
    from lastSibling_in_seg[OF this m] ls have "s = last ks" by simp
    with m show "s \<in> set ks" by (cases ks rule: rev_cases) auto
  qed
  with a ls i' pay show ?thesis by blast
qed

lemma addChild_inv:
  assumes inv: "heapInv h ks" and f: "fresh h n" and pl: "parent < length h" and pn: "parent \<noteq> n"
    and a: "addChild h parent n = Inr h'"
  shows "heapInv h' (if parent = 0 then ks @ [n] else ks) \<and> samePayload h h'"
proof -
  from inv have r: "pointersInRange h" by (simp add: heapInv_def)
  from addChild_linked[OF f pn pl r] a have lk: "childLinked h parent n h'" by auto
  from childLinked_inv[OF inv f pl pn lk] lk show ?thesis by (simp add: childLinked_def)
qed

lemma walkUp_range:
  "pointersInRange h \<Longrightarrow> pv < length h \<Longrightarrow> walkUp h k (Some pv) = Inr (Some a) \<Longrightarrow> a < length h"
proof (induction k arbitrary: pv)
  case 0
  then show ?case by simp
next
  case (Suc k)
  show ?case
  proof (cases "Parent (h ! pv)")
    case None
    with Suc.prems show ?thesis by (cases k) simp_all
  next
    case (Some q)
    with Suc.prems have "q < length h" unfolding pointersInRange_def by blast
    with Suc Some show ?thesis by simp
  qed
qed

lemma attach_inv:
  assumes inv: "heapInv (p_heap p) ks" and f: "fresh (p_heap p) n" and pv: "p_prev p = Some pv"
    and pvl: "pv < length (p_heap p)" and pvn: "pv \<noteq> n" and a: "attach p n = Inr p'"
  shows "\<exists>ks'. heapInv (p_heap p') ks' \<and> (ks' = ks \<or> ks' = ks @ [n]) \<and>
           samePayload (p_heap p) (p_heap p') \<and>
           (\<exists>pv'. p_prev p' = Some pv' \<and> pv' < length (p_heap p') \<and> pv' \<noteq> n) \<and>
           (level (p_heap p ! pv) \<le> p_level p \<longrightarrow> p_prev p' = p_prev p) \<and>
           (p_level p = level (p_heap p ! pv) \<and> pv \<in> set ks \<longrightarrow> ks' = ks @ [n]) \<and>
           (p_level p = level (p_heap p ! pv) \<and> ks = [] \<longrightarrow> ks' = []) \<and>
           (level (p_heap p ! pv) < p_level p \<and> pv = 0 \<longrightarrow> ks' = ks @ [n])"
proof -
  let ?h = "p_heap p"
  from inv have r: "pointersInRange ?h" by (simp add: heapInv_def)
  consider (eq) "p_level p = level (?h ! pv)" | (gt) "level (?h ! pv) < p_level p"
    | (lt) "p_level p < level (?h ! pv)" by linarith
  then show ?thesis
  proof cases
    case eq
    from addSibling_inv[OF inv f pvl pvn] obtain h' s where as: "addSibling ?h pv n = Inr h'"
      and i': "heapInv h' (if s \<in> set ks then ks @ [n] else ks)" and pay: "samePayload ?h h'"
      and m: "pv \<in> set ks \<longrightarrow> s \<in> set ks" by blast
    from a pv eq as have p': "p' = p\<lparr>p_heap := h'\<rparr>" by (simp add: attach_def)
    from pay have len: "length h' = length ?h" by (simp add: samePayload_def)
    show ?thesis
      apply (rule exI[of _ "if s \<in> set ks then ks @ [n] else ks"])
      using p' i' pay pv pvl pvn len m eq by auto
  next
    case gt
    from a pv gt obtain h' where ac: "addChild ?h pv n = Inr h'" and p': "p' = p\<lparr>p_heap := h'\<rparr>"
      by (auto simp: attach_def split: sum.splits)
    from addChild_inv[OF inv f pvl pvn ac]
    have i': "heapInv h' (if pv = 0 then ks @ [n] else ks)" and pay: "samePayload ?h h'" by simp_all
    from pay have len: "length h' = length ?h" by (simp add: samePayload_def)
    show ?thesis
      apply (rule exI[of _ "if pv = 0 then ks @ [n] else ks"])
      using p' i' pay pv pvl pvn len gt by auto
  next
    case lt
    from a pv lt obtain anc q h' where w: "walkUp ?h (nat (level (?h ! pv) - p_level p - 1)) (Some pv) = Inr (Some anc)"
      and q: "Parent (?h ! anc) = Some q" and as: "addSibling ?h q n = Inr h'"
      and p': "p' = p\<lparr>p_heap := h', p_prev := Some anc\<rparr>"
      by (auto simp: attach_def Let_def split: sum.splits option.splits)
    from walkUp_range[OF r pvl w] have al: "anc < length ?h" .
    from r al q have ql: "q < length ?h" unfolding pointersInRange_def by blast
    from f al q have qn: "q \<noteq> n" unfolding fresh_def by blast
    from f q have an: "anc \<noteq> n" by (auto simp: fresh_def)
    from addSibling_inv[OF inv f ql qn] as obtain s
      where i': "heapInv h' (if s \<in> set ks then ks @ [n] else ks)" and pay: "samePayload ?h h'"
      by auto
    from pay have len: "length h' = length ?h" by (simp add: samePayload_def)
    show ?thesis
      apply (rule exI[of _ "if s \<in> set ks then ks @ [n] else ks"])
      using p' i' pay al an len lt by auto
  qed
qed

lemma hasElement_alloc: "hasElement (h @ [nd]) \<longleftrightarrow> hasElement h \<or> Type nd = ElementNode"
proof
  assume "hasElement (h @ [nd])"
  then obtain a where a: "a < length (h @ [nd])" "Type ((h @ [nd]) ! a) = ElementNode"
    unfolding hasElement_def by blast
  show "hasElement h \<or> Type nd = ElementNode"
  proof (cases "a < length h")
    case True
    with a have "Type (h ! a) = ElementNode" by (simp add: nth_append)
    with True show ?thesis unfolding hasElement_def by blast
  next
    case False
    with a have "a = length h" by simp
    with a show ?thesis by simp
  qed
next
  assume "hasElement h \<or> Type nd = ElementNode"
  then show "hasElement (h @ [nd])"
  proof
    assume "hasElement h"
    then obtain a where "a < length h" "Type (h ! a) = ElementNode"
      unfolding hasElement_def by blast
    then have "a < length (h @ [nd]) \<and> Type ((h @ [nd]) ! a) = ElementNode"
      by (simp add: nth_append)
    then show ?thesis unfolding hasElement_def by blast
  next
    assume "Type nd = ElementNode"
    then have "length h < length (h @ [nd]) \<and> Type ((h @ [nd]) ! length h) = ElementNode"
      by simp
    then show ?thesis unfolding hasElement_def by blast
  qed
qed

lemma hasElement_samePayload: "samePayload h h' \<Longrightarrow> hasElement h' = hasElement h"
  by (simp add: hasElement_def samePayload_def)

lemma heapInv_range: "heapInv h ks \<Longrightarrow> k \<in> set ks \<Longrightarrow> k < length h"
  by (auto simp: heapInv_def topChildren_def childrenOf_def dest: seg_in_range)

lemma newNode_links [simp]:
  "Parent (newNode t d l) = None" "FirstChild (newNode t d l) = None"
  "LastChild (newNode t d l) = None" "PrevSibling (newNode t d l) = None"
  "NextSibling (newNode t d l) = None" "Type (newNode t d l) = t" "level (newNode t d l) = l"
  "Data (newNode t d l) = d" "Attrs (newNode t d l) = []"
  by (simp_all add: newNode_def)

lemma parserInv_cache [simp]: "parserInv (p\<lparr>p_cache := x\<rparr>) ks = parserInv p ks"
  by (simp add: parserInv_def beforeElements_def)

text \<open>Allocating a node that is not an element and attaching it.\<close>

lemma attachNew_inv:
  assumes hi: "heapInv (p_heap p) ks" and pr: "\<forall>pv. p_prev p = Some pv \<longrightarrow> pv < length (p_heap p)"
    and blank: "Parent nd = None" "FirstChild nd = None" "LastChild nd = None"
      "PrevSibling nd = None" "NextSibling nd = None"
    and a: "attach (p\<lparr>p_heap := p_heap p @ [nd]\<rparr>) (length (p_heap p)) = Inr p'"
  shows "\<exists>ks'. heapInv (p_heap p') ks' \<and> (ks' = ks \<or> ks' = ks @ [length (p_heap p)]) \<and>
           samePayload (p_heap p @ [nd]) (p_heap p') \<and>
           p' = p\<lparr>p_heap := p_heap p', p_prev := p_prev p'\<rparr> \<and>
           (\<exists>pv'. p_prev p' = Some pv' \<and> pv' < length (p_heap p')) \<and>
           (\<forall>pv. p_prev p = Some pv \<longrightarrow>
              (level (p_heap p ! pv) \<le> p_level p \<longrightarrow> p_prev p' = p_prev p) \<and>
              (p_level p = level (p_heap p ! pv) \<and> pv \<in> set ks \<longrightarrow> ks' = ks @ [length (p_heap p)]) \<and>
              (p_level p = level (p_heap p ! pv) \<and> ks = [] \<longrightarrow> ks' = []) \<and>
              (level (p_heap p ! pv) < p_level p \<and> pv = 0 \<longrightarrow> ks' = ks @ [length (p_heap p)]))"
proof -
  let ?h = "p_heap p" and ?n = "length (p_heap p)"
  let ?p1 = "p\<lparr>p_heap := ?h @ [nd]\<rparr>"
  from heapInv_alloc[OF hi blank] have hi1: "heapInv (p_heap ?p1) ks" and f: "fresh (p_heap ?p1) ?n"
    by simp_all
  from a obtain pv where pv: "p_prev ?p1 = Some pv" by (auto simp: attach_def split: option.splits)
  with pr have pvl: "pv < ?n" by simp
  then have pvl1: "pv < length (p_heap ?p1)" and pvn: "pv \<noteq> ?n" by simp_all
  from pvl have same: "p_heap ?p1 ! pv = ?h ! pv" by (simp add: nth_append)
  from attach_inv[OF hi1 f pv pvl1 pvn a] obtain ks' where
    k: "heapInv (p_heap p') ks'" "ks' = ks \<or> ks' = ks @ [?n]"
      "samePayload (p_heap ?p1) (p_heap p')"
      "\<exists>pv'. p_prev p' = Some pv' \<and> pv' < length (p_heap p') \<and> pv' \<noteq> ?n"
      "level (p_heap ?p1 ! pv) \<le> p_level ?p1 \<longrightarrow> p_prev p' = p_prev ?p1"
      "p_level ?p1 = level (p_heap ?p1 ! pv) \<and> pv \<in> set ks \<longrightarrow> ks' = ks @ [?n]"
      "p_level ?p1 = level (p_heap ?p1 ! pv) \<and> ks = [] \<longrightarrow> ks' = []"
      "level (p_heap ?p1 ! pv) < p_level ?p1 \<and> pv = 0 \<longrightarrow> ks' = ks @ [?n]"
    by blast
  from attach_frame[OF a] have fr: "p' = p\<lparr>p_heap := p_heap p', p_prev := p_prev p'\<rparr>" by simp
  show ?thesis
    apply (rule exI[of _ ks'])
    using k pv same fr by auto
qed


lemma elementKept:
  assumes hi: "heapInv h ks" and ex: "list_ex (\<lambda>k. Type (h ! k) = ElementNode) ks"
    and pay: "samePayload (h @ [nd]) h'" and sub: "ks' = ks \<or> ks' = ks @ [n]"
  shows "list_ex (\<lambda>k. Type (h' ! k) = ElementNode) ks'"
proof -
  from ex obtain k where k: "k \<in> set ks" "Type (h ! k) = ElementNode"
    by (auto simp: list_ex_iff)
  from heapInv_range[OF hi k(1)] have "(h @ [nd]) ! k = h ! k" by (simp add: nth_append)
  with pay k(2) have "Type (h' ! k) = ElementNode" by (simp add: samePayload_def)
  moreover from sub k(1) have "k \<in> set ks'" by auto
  ultimately show ?thesis by (auto simp: list_ex_iff)
qed

lemma addNode_inv:
  assumes inv: "parserInv p ks" and ty: "t \<noteq> ElementNode"
    and a: "addNode p (newNode t d l) c = Continue p' c'"
  shows "\<exists>ks'. parserInv p' ks' \<and> hasElement (p_heap p') = hasElement (p_heap p) \<and>
           p' = p\<lparr>p_heap := p_heap p', p_prev := p_prev p'\<rparr>"
proof -
  let ?h = "p_heap p" and ?n = "length (p_heap p)" and ?nd = "newNode t d l"
  from a have at: "attach (p\<lparr>p_heap := ?h @ [?nd]\<rparr>) ?n = Inr p'"
    by (auto simp: addNode_def Let_def split: sum.splits)
  from inv have hi: "heapInv ?h ks" and pr: "\<forall>pv. p_prev p = Some pv \<longrightarrow> pv < length ?h"
    by (simp_all add: parserInv_def)
  from attachNew_inv[OF hi pr _ _ _ _ _ at] obtain ks' where
    k: "heapInv (p_heap p') ks'" "ks' = ks \<or> ks' = ks @ [?n]"
      "samePayload (?h @ [?nd]) (p_heap p')"
      "p' = p\<lparr>p_heap := p_heap p', p_prev := p_prev p'\<rparr>"
      "\<exists>pv'. p_prev p' = Some pv' \<and> pv' < length (p_heap p')"
    and ph: "\<forall>pv. p_prev p = Some pv \<longrightarrow>
              (level (?h ! pv) \<le> p_level p \<longrightarrow> p_prev p' = p_prev p) \<and>
              (p_level p = level (?h ! pv) \<and> pv \<in> set ks \<longrightarrow> ks' = ks @ [?n]) \<and>
              (p_level p = level (?h ! pv) \<and> ks = [] \<longrightarrow> ks' = []) \<and>
              (level (?h ! pv) < p_level p \<and> pv = 0 \<longrightarrow> ks' = ks @ [?n])"
    by auto
  from k(4) have fld: "p_doc p' = p_doc p" "p_streamElementXPath p' = p_streamElementXPath p"
    "p_streamNode p' = p_streamNode p" "p_level p' = p_level p"
    by (metis parser.select_convs parser.surjective parser.update_convs)+
  have he: "hasElement (p_heap p') = hasElement ?h"
    using hasElement_samePayload[OF k(3)] ty by (simp add: hasElement_alloc)
  have phase: "if hasElement (p_heap p') then list_ex (\<lambda>k. Type (p_heap p' ! k) = ElementNode) ks'
      else beforeElements p' ks'"
  proof (cases "hasElement ?h")
    case True
    with inv have "list_ex (\<lambda>k. Type (?h ! k) = ElementNode) ks" by (simp add: parserInv_def)
    from elementKept[OF hi this k(3) k(2)] True he show ?thesis by simp
  next
    case False
    with inv have "beforeElements p ks" by (simp add: parserInv_def)
    then have "beforeElements p' ks'"
      unfolding beforeElements_def
    proof
      assume A: "p_level p = 0 \<and> p_prev p = Some 0 \<and> ks = []"
      from hi have "level (?h ! 0) = 0" by (simp add: heapInv_def)
      with A ph have "p_prev p' = Some 0" "ks' = []" by auto
      with A fld show "(p_level p' = 0 \<and> p_prev p' = Some 0 \<and> ks' = []) \<or>
        (p_level p' = 1 \<and> (\<exists>k. p_prev p' = Some k \<and> k \<in> set ks' \<and> level (p_heap p' ! k) = 1 \<and>
           (Type (p_heap p' ! k) = DeclarationNode \<or> Type (p_heap p' ! k) = ProcessingInstruction)))"
        by simp
    next
      assume "p_level p = 1 \<and> (\<exists>k. p_prev p = Some k \<and> k \<in> set ks \<and> level (?h ! k) = 1 \<and>
           (Type (?h ! k) = DeclarationNode \<or> Type (?h ! k) = ProcessingInstruction))"
      then obtain k where B: "p_level p = 1" "p_prev p = Some k" "k \<in> set ks" "level (?h ! k) = 1"
        "Type (?h ! k) = DeclarationNode \<or> Type (?h ! k) = ProcessingInstruction" by blast
      from B ph have pk: "p_prev p' = Some k" "ks' = ks @ [?n]" by auto
      from heapInv_range[OF hi B(3)] have "(?h @ [?nd]) ! k = ?h ! k" by (simp add: nth_append)
      with k(3) have "level (p_heap p' ! k) = level (?h ! k)" "Type (p_heap p' ! k) = Type (?h ! k)"
        by (simp_all add: samePayload_def)
      with B pk fld show "(p_level p' = 0 \<and> p_prev p' = Some 0 \<and> ks' = []) \<or>
        (p_level p' = 1 \<and> (\<exists>k. p_prev p' = Some k \<and> k \<in> set ks' \<and> level (p_heap p' ! k) = 1 \<and>
           (Type (p_heap p' ! k) = DeclarationNode \<or> Type (p_heap p' ! k) = ProcessingInstruction)))"
        by auto
    qed
    with False he show ?thesis by simp
  qed
  from inv fld have "p_doc p' = 0" "p_streamElementXPath p' = None" "p_streamNode p' = None"
    by (simp_all add: parserInv_def)
  with k(1) k(5) phase have "parserInv p' ks'" by (auto simp: parserInv_def)
  with he k(4) show ?thesis by blast
qed


lemma addPair_keeps:
  "Parent (addPair nd x) = Parent nd \<and> FirstChild (addPair nd x) = FirstChild nd \<and>
   LastChild (addPair nd x) = LastChild nd \<and> PrevSibling (addPair nd x) = PrevSibling nd \<and>
   NextSibling (addPair nd x) = NextSibling nd \<and> Type (addPair nd x) = Type nd \<and>
   level (addPair nd x) = level nd"
  by (simp add: addPair_def addAttr_def Let_def)

lemma foldl_addPair_keeps:
  "Parent (foldl addPair nd xs) = Parent nd \<and> FirstChild (foldl addPair nd xs) = FirstChild nd \<and>
   LastChild (foldl addPair nd xs) = LastChild nd \<and>
   PrevSibling (foldl addPair nd xs) = PrevSibling nd \<and>
   NextSibling (foldl addPair nd xs) = NextSibling nd \<and> Type (foldl addPair nd xs) = Type nd \<and>
   level (foldl addPair nd xs) = level nd"
  by (induction xs arbitrary: nd) (simp_all add: addPair_keeps)

lemma procInst_inv:
  assumes inv: "parserInv p0 ks"
    and a: "procInst target inst p0 c = Continue p' c'"
  shows "\<exists>ks'. parserInv p' ks' \<and> hasElement (p_heap p') = hasElement (p_heap p0) \<and>
           p' = p0\<lparr>p_heap := p_heap p', p_prev := p_prev p', p_level := p_level p'\<rparr>"
proof -
  from a obtain pv where pv: "p_prev p0 = Some pv"
    by (auto simp: procInst_def split: option.splits)
  let ?bump = "\<not> (Type (p_heap p0 ! pv) = DeclarationNode \<or>
                    Type (p_heap p0 ! pv) = ProcessingInstruction)"
  define p where "p = (if ?bump then p0\<lparr>p_level := p_level p0 + 1\<rparr> else p0)"
  define node0 where "node0 = foldl addPair (newNode DeclarationNode target (p_level p))
                         (Split CHR '' '' inst)"
  define node where "node = (if target \<noteq> ''xml''
                       then node0\<lparr>Type := ProcessingInstruction,
                                  ProcInst := Some \<lparr>Target = target, Inst = TrimSpace inst\<rparr>\<rparr>
                       else node0)"
  let ?h = "p_heap p" and ?n = "length (p_heap p)"
  have hp: "p_heap p = p_heap p0" "p_prev p = p_prev p0" "p_doc p = p_doc p0"
    "p_streamElementXPath p = p_streamElementXPath p0" "p_streamNode p = p_streamNode p0"
    by (simp_all add: p_def)
  have unf: "procInst target inst p0 c =
      (case attach (p\<lparr>p_heap := ?h @ [node]\<rparr>) ?n of
         Inl e \<Rightarrow> Return (Inl e) (p\<lparr>p_heap := ?h @ [node]\<rparr>)
       | Inr p2 \<Rightarrow> Continue (p2\<lparr>p_prev := Some ?n\<rparr>) c)"
    unfolding procInst_def Let_def p_def node_def node0_def using pv by simp
  from a obtain p2 where at: "attach (p\<lparr>p_heap := ?h @ [node]\<rparr>) ?n = Inr p2"
    and p': "p' = p2\<lparr>p_prev := Some ?n\<rparr>"
    unfolding unf by (cases "attach (p\<lparr>p_heap := ?h @ [node]\<rparr>) ?n") auto
  from foldl_addPair_keeps[of "newNode DeclarationNode target (p_level p)" "Split CHR '' '' inst"]
  have n0: "Parent node0 = None" "FirstChild node0 = None" "LastChild node0 = None"
    "PrevSibling node0 = None" "NextSibling node0 = None" "Type node0 = DeclarationNode"
    "level node0 = p_level p"
    by (simp_all add: node0_def)
  then have nd: "Parent node = None" "FirstChild node = None" "LastChild node = None"
    "PrevSibling node = None" "NextSibling node = None"
    "Type node = DeclarationNode \<or> Type node = ProcessingInstruction" "level node = p_level p"
    by (simp_all add: node_def)
  from inv hp have hi: "heapInv ?h ks" and pr: "\<forall>pv. p_prev p = Some pv \<longrightarrow> pv < length ?h"
    by (simp_all add: parserInv_def)
  from attachNew_inv[OF hi pr nd(1-5) at] obtain ks' where
    k: "heapInv (p_heap p2) ks'" "ks' = ks \<or> ks' = ks @ [?n]"
      "samePayload (?h @ [node]) (p_heap p2)"
      "p2 = p\<lparr>p_heap := p_heap p2, p_prev := p_prev p2\<rparr>"
    and ph: "\<forall>pv. p_prev p = Some pv \<longrightarrow>
              (level (?h ! pv) \<le> p_level p \<longrightarrow> p_prev p2 = p_prev p) \<and>
              (p_level p = level (?h ! pv) \<and> pv \<in> set ks \<longrightarrow> ks' = ks @ [?n]) \<and>
              (p_level p = level (?h ! pv) \<and> ks = [] \<longrightarrow> ks' = []) \<and>
              (level (?h ! pv) < p_level p \<and> pv = 0 \<longrightarrow> ks' = ks @ [?n])"
    by auto
  from k(3) have len: "length (p_heap p2) = Suc ?n" by (simp add: samePayload_def)
  from k(3) have pn: "Type (p_heap p2 ! ?n) = Type node" "level (p_heap p2 ! ?n) = level node"
    by (simp_all add: samePayload_def)
  from k(4) have fld2: "p_doc p2 = p_doc p" "p_streamElementXPath p2 = p_streamElementXPath p"
    "p_streamNode p2 = p_streamNode p" "p_level p2 = p_level p"
    by (metis parser.select_convs parser.surjective parser.update_convs)+
  have fr: "p' = p0\<lparr>p_heap := p_heap p', p_prev := p_prev p', p_level := p_level p'\<rparr>"
    using k(4) p' by (cases p0; cases p2) (auto simp: p_def split: if_splits)
  have he: "hasElement (p_heap p') = hasElement (p_heap p0)"
    using hasElement_samePayload[OF k(3)] nd(6) p' hp by (auto simp: hasElement_alloc)
  have phase: "if hasElement (p_heap p') then list_ex (\<lambda>k. Type (p_heap p' ! k) = ElementNode) ks'
      else beforeElements p' ks'"
  proof (cases "hasElement (p_heap p0)")
    case True
    with inv hp have "list_ex (\<lambda>k. Type (?h ! k) = ElementNode) ks" by (simp add: parserInv_def)
    from elementKept[OF hi this k(3) k(2)] True he p' show ?thesis by simp
  next
    case False
    with inv have "beforeElements p0 ks" by (simp add: parserInv_def)
    then have "ks' = ks @ [?n] \<and> p_level p = 1"
      unfolding beforeElements_def
    proof
      assume A: "p_level p0 = 0 \<and> p_prev p0 = Some 0 \<and> ks = []"
      from inv have "Type (p_heap p0 ! 0) = DocumentNode" "level (p_heap p0 ! 0) = 0"
        by (simp_all add: parserInv_def heapInv_def)
      with A pv have "p_level p = 1" "level (?h ! 0) < p_level p" "pv = 0"
        by (simp_all add: p_def)
      with ph hp pv show ?thesis by auto
    next
      assume "p_level p0 = 1 \<and> (\<exists>k. p_prev p0 = Some k \<and> k \<in> set ks \<and> level (p_heap p0 ! k) = 1 \<and>
           (Type (p_heap p0 ! k) = DeclarationNode \<or> Type (p_heap p0 ! k) = ProcessingInstruction))"
      with pv have B: "p_level p0 = 1" "pv \<in> set ks" "level (p_heap p0 ! pv) = 1"
        "Type (p_heap p0 ! pv) = DeclarationNode \<or> Type (p_heap p0 ! pv) = ProcessingInstruction"
        by auto
      then have "p_level p = 1" "p_level p = level (?h ! pv)" by (simp_all add: p_def)
      with ph hp pv B show ?thesis by auto
    qed
    then have "beforeElements p' ks'"
      unfolding beforeElements_def using p' fld2 pn nd by auto
    with False he show ?thesis by simp
  qed
  from inv fld2 hp p' have "p_doc p' = 0" "p_streamElementXPath p' = None" "p_streamNode p' = None"
    by (simp_all add: parserInv_def)
  with k(1) len phase p' have "parserInv p' ks'" by (auto simp: parserInv_def)
  with he fr show ?thesis by blast
qed

lemma heapInv_links:
  assumes len: "length h' = length h"
    and lk: "\<forall>x. Parent (h' ! x) = Parent (h ! x) \<and> FirstChild (h' ! x) = FirstChild (h ! x) \<and>
        LastChild (h' ! x) = LastChild (h ! x) \<and> PrevSibling (h' ! x) = PrevSibling (h ! x) \<and>
        NextSibling (h' ! x) = NextSibling (h ! x) \<and> Type (h' ! x) = Type (h ! x) \<and>
        level (h' ! x) = level (h ! x)"
  shows "heapInv h' ks = heapInv h ks"
proof -
  have "seg h' None ks None = seg h None ks None"
    using len lk by (intro seg_frame) auto
  then show ?thesis
    unfolding heapInv_def pointersInRange_def nextAscends_def lastChildOwned_def
      topChildren_def childrenOf_def
    using len lk by simp
qed

lemma recoverPrefix_links:
  "length (recoverPrefix p n) = length (p_heap p) \<and>
   (\<forall>x. Parent (recoverPrefix p n ! x) = Parent (p_heap p ! x) \<and>
        FirstChild (recoverPrefix p n ! x) = FirstChild (p_heap p ! x) \<and>
        LastChild (recoverPrefix p n ! x) = LastChild (p_heap p ! x) \<and>
        PrevSibling (recoverPrefix p n ! x) = PrevSibling (p_heap p ! x) \<and>
        NextSibling (recoverPrefix p n ! x) = NextSibling (p_heap p ! x) \<and>
        Type (recoverPrefix p n ! x) = Type (p_heap p ! x) \<and>
        level (recoverPrefix p n ! x) = level (p_heap p ! x))"
proof -
  have upd: "\<And>v x. (p_heap p)[n := (p_heap p ! n)\<lparr>Prefix := v\<rparr>] ! x =
      (if n = x \<and> n < length (p_heap p) then (p_heap p ! x)\<lparr>Prefix := v\<rparr> else p_heap p ! x)"
    by (rule nth_upd_field)
  show ?thesis
    unfolding recoverPrefix_def Let_def
    by (simp add: upd split: option.splits)
qed

lemma missingDeclaration_inv:
  assumes inv: "parserInv p0 ks" and a: "missingDeclaration p0 = Inr p1"
  shows "\<exists>ks1. parserInv p1 ks1 \<and> hasElement (p_heap p1) = hasElement (p_heap p0) \<and>
           (\<not> hasElement (p_heap p1) \<longrightarrow> p_level p1 = 1)"
proof (cases "p_level p0 = 0")
  case False
  with a have eq: "p1 = p0" by (simp add: missingDeclaration_def)
  from inv False have "\<not> hasElement (p_heap p0) \<longrightarrow> p_level p0 = 1"
    by (auto simp: parserInv_def beforeElements_def)
  with inv eq show ?thesis by auto
next
  case True
  let ?h0 = "p_heap p0" and ?n = "length (p_heap p0)"
  define nd where "nd = (newNode DeclarationNode ''xml'' 1)\<lparr>Attrs := declAttributes\<rparr>"
  from a True obtain pv where pv: "p_prev p0 = Some pv"
    by (auto simp: missingDeclaration_def Let_def split: option.splits)
  from a True pv obtain h' where ac: "addChild (?h0 @ [nd]) pv ?n = Inr h'"
    and p1: "p1 = p0\<lparr>p_heap := h', p_level := 1, p_prev := Some ?n\<rparr>"
    by (auto simp: missingDeclaration_def Let_def nd_def split: sum.splits)
  from inv pv have hi: "heapInv ?h0 ks" and pr: "pv < ?n" by (simp_all add: parserInv_def)
  have blank: "Parent nd = None" "FirstChild nd = None" "LastChild nd = None"
    "PrevSibling nd = None" "NextSibling nd = None" "Type nd = DeclarationNode" "level nd = 1"
    by (simp_all add: nd_def newNode_def)
  from heapInv_alloc[OF hi blank(1-5)] have hi1: "heapInv (?h0 @ [nd]) ks"
    and fr: "fresh (?h0 @ [nd]) ?n" by simp_all
  from pr have "pv < length (?h0 @ [nd])" "pv \<noteq> ?n" by simp_all
  from addChild_inv[OF hi1 fr this ac]
  have hi': "heapInv h' (if pv = 0 then ks @ [?n] else ks)" and pay: "samePayload (?h0 @ [nd]) h'"
    by simp_all
  from pay have len: "length h' = Suc ?n" by (simp add: samePayload_def)
  from pay have pn: "Type (h' ! ?n) = DeclarationNode" "level (h' ! ?n) = 1"
    using blank by (simp_all add: samePayload_def)
  have he: "hasElement h' = hasElement ?h0"
    using hasElement_samePayload[OF pay] blank(6) by (simp add: hasElement_alloc)
  define ks1 where "ks1 = (if pv = 0 then ks @ [?n] else ks)"
  have f1: "p_heap p1 = h'" "p_level p1 = 1" "p_prev p1 = Some ?n" "p_doc p1 = p_doc p0"
    "p_streamElementXPath p1 = p_streamElementXPath p0" "p_streamNode p1 = p_streamNode p0"
    using p1 by simp_all
  have phase: "if hasElement h' then list_ex (\<lambda>k. Type (h' ! k) = ElementNode) ks1
      else beforeElements p1 ks1"
  proof (cases "hasElement ?h0")
    case True
    with inv have "list_ex (\<lambda>k. Type (?h0 ! k) = ElementNode) ks" by (simp add: parserInv_def)
    from elementKept[OF hi this pay, of ks1 ?n] True he show ?thesis by (simp add: ks1_def)
  next
    case False
    with inv have "beforeElements p0 ks" by (simp add: parserInv_def)
    with \<open>p_level p0 = 0\<close> pv have "pv = 0" "ks = []" by (auto simp: beforeElements_def)
    then have "beforeElements p1 ks1" using f1 pn by (simp add: beforeElements_def ks1_def)
    with False he show ?thesis by simp
  qed
  from inv f1 have "p_doc p1 = 0" "p_streamElementXPath p1 = None" "p_streamNode p1 = None"
    by (simp_all add: parserInv_def)
  moreover from hi' have "heapInv h' ks1" by (simp add: ks1_def)
  ultimately have "parserInv p1 ks1" using len phase f1 by (simp add: parserInv_def)
  moreover have "hasElement (p_heap p1) = hasElement ?h0" using he f1 by simp
  ultimately show ?thesis using f1(2) by blast
qed


lemma startElement_inv:
  assumes inv: "parserInv p0 ks" and a: "startElement nm atts p0 c = Continue p' c'"
  shows "\<exists>ks'. parserInv p' ks' \<and> hasElement (p_heap p') \<and> p_decoder p' = p_decoder p0"
proof -
  from a obtain p1 where md: "missingDeclaration p0 = Inr p1"
    by (cases "missingDeclaration p0") (simp_all add: startElement_def)
  from missingDeclaration_inv[OF inv md] obtain ks1 where inv1: "parserInv p1 ks1"
    and lv1: "\<not> hasElement (p_heap p1) \<longrightarrow> p_level p1 = 1" by blast
  from missingDeclaration_frame[OF md] have d1: "p_decoder p1 = p_decoder p0"
    by (metis parser.select_convs parser.surjective parser.update_convs)
  define m where "m = bindNamespaces (p_level p1) (p_space2prefix p1) atts"
  define p2 where "p2 = p1\<lparr>p_space2prefix := m\<rparr>"
  define node where "node = (newNode ElementNode (Local nm) (p_level p2))
      \<lparr>NamespaceURI := Space nm, Attrs := map (resolveAttr m) atts\<rparr>"
  let ?h = "p_heap p2" and ?n = "length (p_heap p2)"
  have f2: "p_heap p2 = p_heap p1" "p_prev p2 = p_prev p1" "p_level p2 = p_level p1"
    "p_doc p2 = p_doc p1" "p_streamElementXPath p2 = p_streamElementXPath p1"
    "p_streamNode p2 = p_streamNode p1" "p_decoder p2 = p_decoder p1"
    by (simp_all add: p2_def)
  have unf: "startElement nm atts p0 c =
      (if Space nm \<noteq> [] \<and> m (Space nm) = None \<and> Strict (p_decoder p2)
       then Return (Inl (NamespaceMissing (Space nm))) p2
       else case attach (p2\<lparr>p_heap := ?h @ [node]\<rparr>) ?n of
              Inl e \<Rightarrow> Return (Inl e) (p2\<lparr>p_heap := ?h @ [node]\<rparr>)
            | Inr p4 \<Rightarrow>
                (case streamMark (p4\<lparr>p_heap := recoverPrefix p4 ?n\<rparr>) ?n c of
                   (p6, counter') \<Rightarrow>
                     Continue (p6\<lparr>p_prev := Some ?n, p_level := p_level p6 + 1\<rparr>) counter'))"
    unfolding startElement_def Let_def m_def p2_def node_def using md by simp
  from a unf obtain p4 where at: "attach (p2\<lparr>p_heap := ?h @ [node]\<rparr>) ?n = Inr p4"
    and out: "(case streamMark (p4\<lparr>p_heap := recoverPrefix p4 ?n\<rparr>) ?n c of
                   (p6, counter') \<Rightarrow>
                     Continue (p6\<lparr>p_prev := Some ?n, p_level := p_level p6 + 1\<rparr>) counter')
               = Continue p' c'"
    by (cases "attach (p2\<lparr>p_heap := ?h @ [node]\<rparr>) ?n") (auto split: if_splits)
  have nd: "Parent node = None" "FirstChild node = None" "LastChild node = None"
    "PrevSibling node = None" "NextSibling node = None" "Type node = ElementNode"
    by (simp_all add: node_def newNode_def)
  from inv1 f2 have hi: "heapInv ?h ks1"
    and pr: "\<forall>pv. p_prev p2 = Some pv \<longrightarrow> pv < length ?h"
    by (simp_all add: parserInv_def)
  from attachNew_inv[OF hi pr nd(1-5) at] obtain ks' where
    k: "heapInv (p_heap p4) ks'" "ks' = ks1 \<or> ks' = ks1 @ [?n]"
      "samePayload (?h @ [node]) (p_heap p4)"
      "p4 = p2\<lparr>p_heap := p_heap p4, p_prev := p_prev p4\<rparr>"
    and ph: "\<forall>pv. p_prev p2 = Some pv \<longrightarrow>
              (level (?h ! pv) \<le> p_level p2 \<longrightarrow> p_prev p4 = p_prev p2) \<and>
              (p_level p2 = level (?h ! pv) \<and> pv \<in> set ks1 \<longrightarrow> ks' = ks1 @ [?n]) \<and>
              (p_level p2 = level (?h ! pv) \<and> ks1 = [] \<longrightarrow> ks' = []) \<and>
              (level (?h ! pv) < p_level p2 \<and> pv = 0 \<longrightarrow> ks' = ks1 @ [?n])"
    by auto
  from k(4) have f4: "p_doc p4 = p_doc p2" "p_streamElementXPath p4 = p_streamElementXPath p2"
    "p_streamNode p4 = p_streamNode p2" "p_decoder p4 = p_decoder p2"
    by (metis parser.select_convs parser.surjective parser.update_convs)+
  from inv1 have s1: "p_doc p1 = 0" "p_streamElementXPath p1 = None" "p_streamNode p1 = None"
    by (simp_all add: parserInv_def)
  define h5 where "h5 = recoverPrefix p4 ?n"
  have "streamMark (p4\<lparr>p_heap := h5\<rparr>) ?n c = (p4\<lparr>p_heap := h5\<rparr>, c)"
    using f4 f2 s1 by (simp add: streamMark_def)
  with out have p': "p' = p4\<lparr>p_heap := h5, p_prev := Some ?n, p_level := p_level p4 + 1\<rparr>"
    by (simp add: h5_def)
  from recoverPrefix_links[of p4 ?n] have l5: "length h5 = length (p_heap p4)"
    and t5: "\<And>x. Type (h5 ! x) = Type (p_heap p4 ! x)"
    unfolding h5_def by simp_all
  have hi5: "heapInv h5 ks' = heapInv (p_heap p4) ks'"
    using recoverPrefix_links[of p4 ?n] unfolding h5_def by (intro heapInv_links) simp_all
  from k(3) have len: "length (p_heap p4) = Suc ?n"
    and tn: "Type (p_heap p4 ! ?n) = ElementNode"
    using nd(6) by (simp_all add: samePayload_def)
  have he: "hasElement h5"
    unfolding hasElement_def using l5 len t5 tn by (intro exI[of _ ?n]) simp
  have ex4: "list_ex (\<lambda>k. Type (p_heap p4 ! k) = ElementNode) ks'"
  proof (cases "hasElement (p_heap p1)")
    case True
    with inv1 f2 have "list_ex (\<lambda>k. Type (?h ! k) = ElementNode) ks1"
      by (simp add: parserInv_def)
    from elementKept[OF hi this k(3) k(2)] show ?thesis .
  next
    case False
    with inv1 lv1 have "beforeElements p1 ks1" "p_level p1 = 1" by (simp_all add: parserInv_def)
    then obtain kk where "p_prev p1 = Some kk" "kk \<in> set ks1" "level (p_heap p1 ! kk) = 1"
      by (auto simp: beforeElements_def)
    with ph f2 \<open>p_level p1 = 1\<close> have "ks' = ks1 @ [?n]" by auto
    with tn show ?thesis by (simp add: list_ex_iff)
  qed
  then have ex5: "list_ex (\<lambda>k. Type (h5 ! k) = ElementNode) ks'" by (simp add: t5)
  have f': "p_heap p' = h5" "p_prev p' = Some ?n" "p_doc p' = p_doc p4"
    "p_streamElementXPath p' = p_streamElementXPath p4" "p_streamNode p' = p_streamNode p4"
    "p_decoder p' = p_decoder p4"
    using p' by simp_all
  from k(1) hi5 have "heapInv h5 ks'" by simp
  then have "parserInv p' ks'"
    using f' f4 f2 s1 he ex5 l5 len by (simp add: parserInv_def)
  with he f' f4 f2 d1 show ?thesis by auto
qed

lemma endElement_inv:
  assumes inv: "parserInv p0 ks" and he: "hasElement (p_heap p0)"
    and a: "endElement p0 c = Continue p' c'"
  shows "parserInv p' ks \<and> p_heap p' = p_heap p0 \<and> p_decoder p' = p_decoder p0"
proof -
  from inv have "p_streamNode p0 = None" by (simp add: parserInv_def)
  with a have "p' = p0\<lparr>p_level := p_level p0 - 1\<rparr>" by (simp add: endElement_def Let_def)
  with inv he show ?thesis by (simp add: parserInv_def)
qed

lemma step_inv:
  assumes inv: "parserInv p ks"
    and e: "(\<forall>nm. tok \<noteq> xml_EndElement nm) \<or> hasElement (p_heap p)"
    and a: "step tok p c = Continue p' c'"
  shows "\<exists>ks'. parserInv p' ks' \<and> p_decoder p' = p_decoder p \<and>
           (hasElement (p_heap p) \<longrightarrow> hasElement (p_heap p')) \<and>
           ((\<exists>nm atts. tok = xml_StartElement nm atts) \<longrightarrow> hasElement (p_heap p'))"
proof (cases tok)
  case (xml_StartElement nm atts)
  with a have "startElement nm atts p c = Continue p' c'" by simp
  from startElement_inv[OF inv this] show ?thesis by auto
next
  case (xml_EndElement nm)
  with a e have "endElement p c = Continue p' c'" "hasElement (p_heap p)" by simp_all
  from endElement_inv[OF inv this(2) this(1)] this(2) xml_EndElement show ?thesis by auto
next
  case (xml_CharData t)
  with a have "addNode p (newNode (charDataType (p_cache p)) t (p_level p)) c = Continue p' c'"
    by (simp add: charData_def)
  moreover have "charDataType (p_cache p) \<noteq> ElementNode" by (simp add: charDataType_def Let_def)
  ultimately obtain ks' where "parserInv p' ks'" "hasElement (p_heap p') = hasElement (p_heap p)"
    "p' = p\<lparr>p_heap := p_heap p', p_prev := p_prev p'\<rparr>"
    using addNode_inv[OF inv] by blast
  moreover from this(3) have "p_decoder p' = p_decoder p"
    by (metis parser.select_convs parser.surjective parser.update_convs)
  ultimately show ?thesis using xml_CharData by auto
next
  case (xml_Comment t)
  with a have "addNode p (newNode CommentNode t (p_level p)) c = Continue p' c'"
    by (simp add: comment_def)
  then obtain ks' where "parserInv p' ks'" "hasElement (p_heap p') = hasElement (p_heap p)"
    "p' = p\<lparr>p_heap := p_heap p', p_prev := p_prev p'\<rparr>"
    using addNode_inv[OF inv, of CommentNode] by blast
  moreover from this(3) have "p_decoder p' = p_decoder p"
    by (metis parser.select_convs parser.surjective parser.update_convs)
  ultimately show ?thesis using xml_Comment by auto
next
  case (xml_ProcInst target inst)
  with a have "procInst target inst p c = Continue p' c'" by simp
  from procInst_inv[OF inv this] obtain ks' where "parserInv p' ks'"
    "hasElement (p_heap p') = hasElement (p_heap p)"
    "p' = p\<lparr>p_heap := p_heap p', p_prev := p_prev p', p_level := p_level p'\<rparr>" by blast
  moreover from this(3) have "p_decoder p' = p_decoder p"
    by (metis parser.select_convs parser.surjective parser.update_convs)
  ultimately show ?thesis using xml_ProcInst by auto
next
  case (xml_Directive t)
  with a have "addNode p (newNode NotationNode t (p_level p)) c = Continue p' c'"
    by (simp add: directive_def)
  then obtain ks' where "parserInv p' ks'" "hasElement (p_heap p') = hasElement (p_heap p)"
    "p' = p\<lparr>p_heap := p_heap p', p_prev := p_prev p'\<rparr>"
    using addNode_inv[OF inv, of NotationNode] by blast
  moreover from this(3) have "p_decoder p' = p_decoder p"
    by (metis parser.select_convs parser.surjective parser.update_convs)
  ultimately show ?thesis using xml_Directive by auto
qed


lemma steps_inv:
  assumes "parserInv p ks" and "\<not> hasElement (p_heap p) \<longrightarrow> d = 0"
    and "nesting d (map fst ts)" and "steps ts p c = Continue p' c'"
  shows "\<exists>ks'. parserInv p' ks' \<and> p_decoder p' = p_decoder p"
  using assms
proof (induction ts arbitrary: p ks d c)
  case Nil
  then show ?case by auto
next
  case (Cons tr rest)
  obtain tok raw where tr: "tr = (tok, raw)" by (cases tr)
  let ?q = "p\<lparr>p_cache := Cache raw\<rparr>"
  from Cons.prems(4) tr obtain p1 c1 where st: "step tok ?q c = Continue p1 c1"
    and rest: "steps rest p1 c1 = Continue p' c'"
    by (cases "step tok ?q c") simp_all
  from Cons.prems(1) have invq: "parserInv ?q ks" by simp
  have hq: "p_heap ?q = p_heap p" "p_decoder ?q = p_decoder p" by simp_all
  have e: "(\<forall>nm. tok \<noteq> xml_EndElement nm) \<or> hasElement (p_heap ?q)"
    using Cons.prems(2,3) tr by (cases tok) auto
  from step_inv[OF invq e st] obtain ks1 where inv1: "parserInv p1 ks1"
    and d1: "p_decoder p1 = p_decoder p"
    and h1: "hasElement (p_heap p) \<longrightarrow> hasElement (p_heap p1)"
    and s1: "(\<exists>nm atts. tok = xml_StartElement nm atts) \<longrightarrow> hasElement (p_heap p1)"
    unfolding hq by blast
  have "\<exists>d'. (\<not> hasElement (p_heap p1) \<longrightarrow> d' = 0) \<and> nesting d' (map fst rest)"
  proof (cases tok)
    case (xml_StartElement nm atts)
    with Cons.prems(3) tr s1 show ?thesis by (intro exI[of _ "Suc d"]) simp
  next
    case (xml_EndElement nm)
    with Cons.prems(2,3) tr h1 show ?thesis by (intro exI[of _ "d - 1"]) auto
  next
    case (xml_CharData t)
    with Cons.prems(2,3) tr h1 show ?thesis by (intro exI[of _ d]) auto
  next
    case (xml_Comment t)
    with Cons.prems(2,3) tr h1 show ?thesis by (intro exI[of _ d]) auto
  next
    case (xml_ProcInst t i)
    with Cons.prems(2,3) tr h1 show ?thesis by (intro exI[of _ d]) auto
  next
    case (xml_Directive t)
    with Cons.prems(2,3) tr h1 show ?thesis by (intro exI[of _ d]) auto
  qed
  then obtain d' where "\<not> hasElement (p_heap p1) \<longrightarrow> d' = 0" "nesting d' (map fst rest)"
    by blast
  from Cons.IH[OF inv1 this rest] d1 show ?case by auto
qed

lemma steps_parseLoop:
  "steps ts p c = Continue p' c' \<Longrightarrow> parseLoop ts p c = (Inl (final (p_decoder p')), p', [])"
proof (induction ts arbitrary: p c)
  case Nil
  then show ?case by simp
next
  case (Cons tr rest)
  obtain tok raw where tr: "tr = (tok, raw)" by (cases tr)
  from Cons.prems tr obtain p1 c1 where st: "step tok (p\<lparr>p_cache := Cache raw\<rparr>) c = Continue p1 c1"
    and rest: "steps rest p1 c1 = Continue p' c'"
    by (cases "step tok (p\<lparr>p_cache := Cache raw\<rparr>) c") simp_all
  from Cons.IH[OF rest] st tr show ?case by simp
qed

lemma parserInv_initial:
  "parserInv (once (apply_options options (createParser d))) []"
proof -
  let ?p = "once (apply_options options (createParser d))"
  have f: "p_heap ?p = [newNode DocumentNode [] 0]" "p_doc ?p = 0" "p_level ?p = 0"
    "p_prev ?p = Some 0" "p_streamElementXPath ?p = None" "p_streamNode ?p = None"
    by (simp_all add: once_def apply_options_def createParser_def split: option.splits)
  have "heapInv [newNode DocumentNode [] 0] []"
    by (simp add: heapInv_def pointersInRange_def nextAscends_def lastChildOwned_def
        topChildren_def childrenOf_def newNode_def)
  moreover have "\<not> hasElement [newNode DocumentNode [] 0]"
    by (simp add: hasElement_def newNode_def)
  ultimately show ?thesis
    unfolding parserInv_def beforeElements_def f by simp
qed

lemma initial_decoder:
  "tokens (p_decoder (once (apply_options options (createParser (newDecoder ts e))))) = ts"
  "final (p_decoder (once (apply_options options (createParser (newDecoder ts e))))) = e"
  by (simp_all add: once_def apply_options_def createParser_def newDecoder_def
      split: option.splits)

lemma next_in_range:
  "pointersInRange h \<Longrightarrow> a < length h \<Longrightarrow> NextSibling (h ! a) = Some b \<Longrightarrow> b < length h"
  unfolding pointersInRange_def by blast

lemma first_in_range:
  "pointersInRange h \<Longrightarrow> a < length h \<Longrightarrow> FirstChild (h ! a) = Some b \<Longrightarrow> b < length h"
  unfolding pointersInRange_def by blast

lemma next_ascends:
  "nextAscends h \<Longrightarrow> a < length h \<Longrightarrow> NextSibling (h ! a) = Some b \<Longrightarrow> a < b"
  unfolding nextAscends_def by blast

lemma hasElementFrom_total:
  assumes r: "pointersInRange h" and asc: "nextAscends h"
  shows "a < length h \<Longrightarrow>
    \<exists>b. hasElementFrom h (Some a) = Some b \<and> (b \<longrightarrow> hasElement h)"
proof (induction "length h - a" arbitrary: a rule: less_induct)
  case less
  show ?case
  proof (cases "Type (h ! a) = ElementNode")
    case True
    with less.prems have "hasElement h" by (auto simp: hasElement_def)
    with True show ?thesis by (auto simp: hasElementFrom.simps[of h "Some a"])
  next
    case False
    show ?thesis
    proof (cases "NextSibling (h ! a)")
      case None
      with False show ?thesis
        by (auto simp: hasElementFrom.simps[of h "Some a"] hasElementFrom.simps[of h None])
    next
      case (Some b)
      with r asc less.prems have "b < length h" "a < b"
        by (simp_all add: next_in_range[of h a b] next_ascends[of h a b])
      then have "length h - b < length h - a" by simp
      from less.hyps[OF this \<open>b < length h\<close>] False Some show ?thesis
        by (auto simp: hasElementFrom.simps[of h "Some a"])
    qed
  qed
qed

lemma hasElementFrom_option:
  assumes r: "pointersInRange h" and asc: "nextAscends h"
    and x: "\<forall>a. x = Some a \<longrightarrow> a < length h"
  shows "\<exists>b. hasElementFrom h x = Some b \<and> (b \<longrightarrow> hasElement h)"
proof (cases x)
  case None
  then show ?thesis by (auto simp: hasElementFrom.simps[of h None])
next
  case (Some a)
  with x hasElementFrom_total[OF r asc, of a] show ?thesis by simp
qed

lemma hasElementFrom_seg:
  "seg h pv ks nx \<Longrightarrow> list_ex (\<lambda>k. Type (h ! k) = ElementNode) ks \<Longrightarrow>
     hasElementFrom h (Some (hd ks)) = Some True"
proof (induction ks arbitrary: pv)
  case Nil
  then show ?case by simp
next
  case (Cons x xs)
  show ?case
  proof (cases "Type (h ! x) = ElementNode")
    case True
    then show ?thesis by (auto simp: hasElementFrom.simps[of h "Some x"])
  next
    case False
    with Cons.prems(2) have ex: "list_ex (\<lambda>k. Type (h ! k) = ElementNode) xs" by simp
    then obtain y ys where xs: "xs = y # ys" by (cases xs) auto
    with Cons.prems(1) have "NextSibling (h ! x) = Some y" "seg h (Some x) xs nx"
      by (simp_all add: seg_Cons)
    with Cons.IH[OF this(2) ex] False xs show ?thesis
      by (auto simp: hasElementFrom.simps[of h "Some x"])
  qed
qed

lemma validFrom_total:
  assumes r: "pointersInRange h" and asc: "nextAscends h"
  shows "d < length h \<Longrightarrow>
    \<exists>b. validFrom h (Some d) v = Some b \<and> (v \<longrightarrow> b) \<and> (b \<longrightarrow> v \<or> hasElement h)"
proof (induction "length h - d" arbitrary: d v rule: less_induct)
  case less
  from r less.prems have "\<forall>a. FirstChild (h ! d) = Some a \<longrightarrow> a < length h"
    using first_in_range[of h d] by blast
  from hasElementFrom_option[OF r asc this] obtain b0 where
    b0: "hasElementFrom h (FirstChild (h ! d)) = Some b0" "b0 \<longrightarrow> hasElement h" by blast
  show ?case
  proof (cases "NextSibling (h ! d)")
    case None
    with b0 show ?thesis
      by (auto simp: validFrom.simps[of h "Some d"] validFrom.simps[of h None])
  next
    case (Some d')
    with r asc less.prems have "d' < length h" "d < d'"
      by (simp_all add: next_in_range[of h d d'] next_ascends[of h d d'])
    then have "length h - d' < length h - d" by simp
    from less.hyps[OF this \<open>d' < length h\<close>, of "v \<or> b0"] b0 Some show ?thesis
      by (auto simp: validFrom.simps[of h "Some d"])
  qed
qed

lemma validFrom_document:
  assumes hi: "heapInv h ks"
    and ex: "hasElement h \<longrightarrow> list_ex (\<lambda>k. Type (h ! k) = ElementNode) ks"
  shows "validFrom h (Some 0) False = Some (hasElement h)"
proof -
  from hi have r: "pointersInRange h" and asc: "nextAscends h"
    and c: "childrenOf h 0 ks" by (simp_all add: heapInv_def topChildren_def)
  from c have l: "0 < length h" and sg: "seg h None ks None"
    and fc: "FirstChild (h ! 0) = (if ks = [] then None else Some (hd ks))"
    by (simp_all add: childrenOf_def)
  from r l have "\<forall>a. FirstChild (h ! 0) = Some a \<longrightarrow> a < length h"
    using first_in_range[of h 0] by blast
  from hasElementFrom_option[OF r asc this] obtain b0 where
    b0: "hasElementFrom h (FirstChild (h ! 0)) = Some b0" "b0 \<longrightarrow> hasElement h" by blast
  have "hasElement h \<longrightarrow> b0"
  proof
    assume "hasElement h"
    with ex have e: "list_ex (\<lambda>k. Type (h ! k) = ElementNode) ks" by simp
    then have "ks \<noteq> []" by auto
    with hasElementFrom_seg[OF sg e] fc b0 show b0 by simp
  qed
  with b0 have b: "b0 = hasElement h" by auto
  from validFrom_total[OF r asc l, of False] obtain v where
    "validFrom h (Some 0) False = Some v" "v \<longrightarrow> hasElement h" by auto
  moreover have "hasElement h \<longrightarrow> v"
  proof (cases "NextSibling (h ! 0)")
    case None
    with calculation(1) b0(1) b show ?thesis
      by (auto simp: validFrom.simps[of h "Some 0"] validFrom.simps[of h None])
  next
    case (Some d')
    with r l have "d' < length h" by (simp add: next_in_range[of h 0 d'])
    from validFrom_total[OF r asc this, of b0] obtain v' where
      "validFrom h (Some d') b0 = Some v'" "b0 \<longrightarrow> v'" by auto
    with calculation(1) b0(1) b Some show ?thesis
      by (auto simp: validFrom.simps[of h "Some 0"])
  qed
  ultimately show ?thesis by auto
qed

section \<open>The validity check after a full parse\<close>

lemma hasElement_list_ex: "hasElement h \<longleftrightarrow> list_ex (\<lambda>nd. Type nd = ElementNode) h"
  unfolding hasElement_def list_ex_iff by (metis in_set_conv_nth)

text \<open>
  C7.  When the token loop handles every token of the input (with the end tags the
  tokenizer can produce: each closes an open start tag) and the input ends normally,
  \<open>ParseWithOptions\<close>, and so \<open>Parse\<close>, returns the document with its tree exactly when
  some node of the parsed document is an element, which is then a child of the document
  node; otherwise it returns the error for an invalid XML document and no tree.
\<close>

theorem Parse_validity:
  assumes n: "nesting 0 (map fst ts)"
    and run: "steps ts (once (apply_options options (createParser (newDecoder ts EOF)))) 0
                = Continue p c"
  shows "ParseWithOptions ts EOF options =
           (if hasElement (p_heap p) then Inr (p_doc p, p_heap p) else Inl InvalidXMLDocument) \<and>
         (hasElement (p_heap p) \<longrightarrow>
            (\<exists>k < length (p_heap p). Parent (p_heap p ! k) = Some (p_doc p) \<and>
                 Type (p_heap p ! k) = ElementNode))"
proof -
  let ?i = "apply_options options (createParser (newDecoder ts EOF))"
  have z: "\<not> hasElement (p_heap (once ?i)) \<longrightarrow> (0::nat) = 0" by simp
  from steps_inv[OF parserInv_initial z n run] obtain ks where inv: "parserInv p ks"
    and dec: "p_decoder p = p_decoder (once ?i)" by blast
  from dec have fin: "final (p_decoder p) = EOF" by (simp add: initial_decoder)
  from steps_parseLoop[OF run] fin
  have pl: "parseLoop ts (once ?i) 0 = (Inl EOF, p, [])" by simp
  have ps: "parse ?i = (Inl EOF, p\<lparr>p_decoder := (p_decoder p)\<lparr>tokens := []\<rparr>\<rparr>)"
    by (simp add: parse_def Let_def initial_decoder pl)
  have pu: "parseUntilError ?i = Some (EOF, p\<lparr>p_decoder := (p_decoder p)\<lparr>tokens := []\<rparr>\<rparr>)"
    by (subst parseUntilError.simps) (simp add: ps)
  from inv have doc: "p_doc p = 0" and hi: "heapInv (p_heap p) ks"
    and ex: "hasElement (p_heap p) \<longrightarrow> list_ex (\<lambda>k. Type (p_heap p ! k) = ElementNode) ks"
    by (simp_all add: parserInv_def)
  from validFrom_document[OF hi ex]
  have v: "validFrom (p_heap p) (Some 0) False = Some (hasElement (p_heap p))" .
  have one: "ParseWithOptions ts EOF options =
           (if hasElement (p_heap p) then Inr (p_doc p, p_heap p) else Inl InvalidXMLDocument)"
    unfolding ParseWithOptions_def by (simp add: pu doc v)
  have two: "\<exists>k < length (p_heap p). Parent (p_heap p ! k) = Some (p_doc p) \<and>
                 Type (p_heap p ! k) = ElementNode" if "hasElement (p_heap p)"
  proof -
    from that ex obtain k where k: "k \<in> set ks" "Type (p_heap p ! k) = ElementNode"
      by (auto simp: list_ex_iff)
    from hi have "childrenOf (p_heap p) 0 ks" by (simp add: heapInv_def topChildren_def)
    with k(1) have "Parent (p_heap p ! k) = Some 0" by (simp add: childrenOf_def)
    with heapInv_range[OF hi k(1)] k(2) doc show ?thesis by auto
  qed
  from one two show ?thesis by blast
qed

theorem Parse_validity_witness:
  "nesting 0 (map fst textDoc) \<and>
   (\<exists>p c. steps textDoc (once (apply_options \<lparr>Decoder = None\<rparr>
                                  (createParser (newDecoder textDoc EOF)))) 0 = Continue p c \<and>
          hasElement (p_heap p) \<and> Parse textDoc EOF = Inr (p_doc p, p_heap p)) \<and>
   nesting 0 (map fst [(xml_Comment ''c'', ''<!--c-->'')]) \<and>
   Parse [(xml_Comment ''c'', ''<!--c-->'')] EOF = Inl InvalidXMLDocument"
proof -
  let ?o = "\<lparr>Decoder = None\<rparr>"
  let ?run = "steps textDoc (once (apply_options ?o (createParser (newDecoder textDoc EOF)))) 0"
  let ?cs = "[(xml_Comment ''c'', ''<!--c-->'')]"
  let ?run2 = "steps ?cs (once (apply_options ?o (createParser (newDecoder ?cs EOF)))) 0"
  have n: "nesting 0 (map fst textDoc)" by (simp add: textDoc_def)
  have "case ?run of Continue p c \<Rightarrow> list_ex (\<lambda>nd. Type nd = ElementNode) (p_heap p)
        | Return r p \<Rightarrow> False"
    by code_simp
  then obtain p c where run: "?run = Continue p c" and he: "hasElement (p_heap p)"
    by (cases ?run) (simp_all add: hasElement_list_ex)
  from Parse_validity[OF n run] he have r1: "Parse textDoc EOF = Inr (p_doc p, p_heap p)"
    by (simp add: Parse_def)
  have n2: "nesting 0 (map fst ?cs)" by simp
  have "case ?run2 of Continue p c \<Rightarrow> \<not> list_ex (\<lambda>nd. Type nd = ElementNode) (p_heap p)
        | Return r p \<Rightarrow> False"
    by code_simp
  then obtain p2 c2 where run2: "?run2 = Continue p2 c2" and nhe: "\<not> hasElement (p_heap p2)"
    by (cases ?run2) (simp_all add: hasElement_list_ex)
  from Parse_validity[OF n2 run2] nhe have r2: "Parse ?cs EOF = Inl InvalidXMLDocument"
    by (simp add: Parse_def)
  from n run he r1 n2 r2 show ?thesis by blast
qed

section \<open>Full-document parses do not panic\<close>

lemma walkUp_None: "walkUp h k None = (if k = 0 then Inr None else Inl NilDereference)"
  by (cases k) simp_all

lemma walkUp_add:
  "walkUp h (j + k) x = (case walkUp h j x of Inl e \<Rightarrow> Inl e | Inr y \<Rightarrow> walkUp h k y)"
proof (induction j arbitrary: x)
  case 0
  then show ?case by simp
next
  case (Suc j)
  show ?case
  proof (cases x)
    case None
    then show ?thesis by simp
  next
    case (Some a)
    with Suc[of "Parent (h ! a)"] show ?thesis by simp
  qed
qed

lemma climbs_0 [simp]: "climbs h a 0"
  by (simp add: climbs_def)

lemma climbs_Suc:
  "climbs h a (Suc k) \<longleftrightarrow> (\<exists>q. Parent (h ! a) = Some q \<and> climbs h q k)"
  by (cases "Parent (h ! a)") (simp_all add: climbs_def walkUp_None)

lemma climbs_split:
  assumes "climbs h a (j + k)"
  shows "\<exists>b. walkUp h j (Some a) = Inr (Some b) \<and> climbs h b k"
proof (cases "walkUp h j (Some a)")
  case (Inl e)
  with assms show ?thesis by (simp add: climbs_def walkUp_add)
next
  case (Inr y)
  show ?thesis
  proof (cases y)
    case None
    with Inr assms show ?thesis
      by (cases "k = 0") (simp_all add: climbs_def walkUp_add walkUp_None)
  next
    case (Some b)
    with Inr assms show ?thesis by (simp add: climbs_def walkUp_add)
  qed
qed

lemma climbs_mono: "climbs h a k \<Longrightarrow> j \<le> k \<Longrightarrow> climbs h a j"
  using climbs_split[of h a j "k - j"] by (auto simp: climbs_def)

lemma walkUp_level:
  assumes hi: "parentIsHigher h" and r: "pointersInRange h"
  shows "a < length h \<Longrightarrow> walkUp h k (Some a) = Inr (Some b) \<Longrightarrow>
           level (h ! b) + int k \<le> level (h ! a)"
proof (induction k arbitrary: a)
  case 0
  then show ?case by simp
next
  case (Suc k)
  show ?case
  proof (cases "Parent (h ! a)")
    case None
    with Suc.prems show ?thesis by (simp add: walkUp_None split: if_splits)
  next
    case (Some q)
    with r Suc.prems(1) have q: "q < length h" unfolding pointersInRange_def by blast
    from hi Suc.prems(1) Some have "level (h ! q) < level (h ! a)"
      unfolding parentIsHigher_def by blast
    with Suc.IH[OF q] Suc.prems(2) Some show ?thesis by simp
  qed
qed

lemma walkUp_cong:
  assumes cl: "\<And>x q. P x \<Longrightarrow> Parent (h ! x) = Some q \<Longrightarrow> P q"
    and eq: "\<And>x. P x \<Longrightarrow> Parent (h' ! x) = Parent (h ! x)"
  shows "P a \<Longrightarrow> walkUp h' k (Some a) = walkUp h k (Some a)"
proof (induction k arbitrary: a)
  case 0
  then show ?case by simp
next
  case (Suc k)
  show ?case
  proof (cases "Parent (h ! a)")
    case None
    with eq[OF Suc.prems] show ?thesis by (simp add: walkUp_None)
  next
    case (Some q)
    with cl[OF Suc.prems] have "P q" by simp
    from Suc.IH[OF this] eq[OF Suc.prems] Some show ?thesis by simp
  qed
qed

lemma climbs_cong:
  assumes r: "pointersInRange h" and m: "m \<le> length h"
    and eq: "\<And>x. x < m \<Longrightarrow> Parent (h' ! x) = Parent (h ! x)"
    and cl: "\<And>x q. x < m \<Longrightarrow> Parent (h ! x) = Some q \<Longrightarrow> q < m"
    and a: "a < m"
  shows "walkUp h' k (Some a) = walkUp h k (Some a)" "climbs h' a k = climbs h a k"
proof -
  show "walkUp h' k (Some a) = walkUp h k (Some a)"
    by (rule walkUp_cong[where P = "\<lambda>x. x < m"]) (use eq cl a in auto)
  then show "climbs h' a k = climbs h a k" by (simp add: climbs_def)
qed

lemma lastSibling_parent:
  assumes r: "pointersInRange h" and asc: "nextAscends h" and sp: "siblingsShareParent h"
  shows "a < length h \<Longrightarrow> lastSibling h a = Some s \<Longrightarrow> Parent (h ! s) = Parent (h ! a)"
proof (induction "length h - a" arbitrary: a rule: less_induct)
  case less
  show ?case
  proof (cases "NextSibling (h ! a)")
    case None
    with less.prems(2) show ?thesis by (simp add: lastSibling.simps[of h a])
  next
    case (Some b)
    with r asc less.prems have b: "b < length h" "a < b"
      by (simp_all add: next_in_range[of h a b] next_ascends[of h a b])
    then have "length h - b < length h - a" by simp
    moreover from less.prems(2) Some have "lastSibling h b = Some s"
      by (simp add: lastSibling.simps[of h a])
    ultimately have "Parent (h ! s) = Parent (h ! b)" using less.hyps b(1) by blast
    moreover from sp less.prems(1) Some have "Parent (h ! b) = Parent (h ! a)"
      unfolding siblingsShareParent_def by blast
    ultimately show ?thesis by simp
  qed
qed


lemma treeInv_alloc:
  assumes ti: "treeInv h" and r: "pointersInRange h"
    and blank: "Parent nd = None" "FirstChild nd = None" "NextSibling nd = None"
  shows "treeInv (h @ [nd])"
proof -
  have old: "\<And>a. a < length h \<Longrightarrow> (h @ [nd]) ! a = h ! a" by (simp add: nth_append)
  have new: "(h @ [nd]) ! length h = nd" by simp
  have cs: "\<And>a. a < length (h @ [nd]) \<Longrightarrow> a < length h \<or> a = length h" by auto
  have "firstHasLast (h @ [nd])"
    unfolding firstHasLast_def
  proof (intro allI impI)
    fix a assume "a < length (h @ [nd])" "FirstChild ((h @ [nd]) ! a) \<noteq> None"
    with cs[of a] old[of a] new blank(2) have "a < length h" "FirstChild (h ! a) \<noteq> None" by auto
    with ti old[of a] show "LastChild ((h @ [nd]) ! a) \<noteq> None"
      by (simp add: treeInv_def firstHasLast_def)
  qed
  moreover have "siblingsShareParent (h @ [nd])"
    unfolding siblingsShareParent_def
  proof (intro allI impI)
    fix a b assume "a < length (h @ [nd])" "NextSibling ((h @ [nd]) ! a) = Some b"
    with cs[of a] old[of a] new blank(3) have a: "a < length h" "NextSibling (h ! a) = Some b"
      by auto
    with r have "b < length h" by (simp add: next_in_range[of h a b])
    moreover from ti a have "Parent (h ! b) = Parent (h ! a)"
      unfolding treeInv_def siblingsShareParent_def by blast
    ultimately show "Parent ((h @ [nd]) ! b) = Parent ((h @ [nd]) ! a)"
      using a(1) by (simp add: old)
  qed
  moreover have "parentIsHigher (h @ [nd])"
    unfolding parentIsHigher_def
  proof (intro allI impI)
    fix a q assume "a < length (h @ [nd])" "Parent ((h @ [nd]) ! a) = Some q"
    with cs[of a] old[of a] new blank(1) have a: "a < length h" "Parent (h ! a) = Some q"
      by auto
    with r have "q < length h" unfolding pointersInRange_def by blast
    moreover from ti a have "level (h ! q) < level (h ! a)"
      unfolding treeInv_def parentIsHigher_def by blast
    ultimately show "level ((h @ [nd]) ! q) < level ((h @ [nd]) ! a)"
      using a(1) by (simp add: old)
  qed
  ultimately show ?thesis by (simp add: treeInv_def)
qed

lemma treeInv_child:
  assumes ti: "treeInv h" and own: "lastChildOwned h"
    and f: "fresh h n" and pl: "parent < length h" and pn: "parent \<noteq> n"
    and lk: "childLinked h parent n h'"
    and lv: "level (h ! parent) < level (h ! n)"
  shows "treeInv h'"
proof -
  from lk have len: "length h' = length h" and lev: "\<And>x. level (h' ! x) = level (h ! x)"
    by (simp_all add: childLinked_def samePayload_def)
  from lk have P: "\<And>x. Parent (h' ! x) = (if x = n then Some parent else Parent (h ! x))"
    and F: "\<And>x. FirstChild (h' ! x) =
            (if x = parent \<and> FirstChild (h ! parent) = None then Some n else FirstChild (h ! x))"
    and L: "\<And>x. LastChild (h' ! x) = (if x = parent then Some n else LastChild (h ! x))"
    and N: "\<And>x. NextSibling (h' ! x) =
            (if FirstChild (h ! parent) \<noteq> None \<and> LastChild (h ! parent) = Some x then Some n
             else NextSibling (h ! x))"
    by (simp_all add: childLinked_def)
  from f have fn: "NextSibling (h ! n) = None"
    and nob: "\<And>a. a < length h \<Longrightarrow> NextSibling (h ! a) \<noteq> Some n"
    and nol: "\<And>a. a < length h \<Longrightarrow> LastChild (h ! a) \<noteq> Some n"
    by (simp_all add: fresh_def)
  have "firstHasLast h'"
    unfolding firstHasLast_def
  proof (intro allI impI)
    fix a assume a: "a < length h'" "FirstChild (h' ! a) \<noteq> None"
    show "LastChild (h' ! a) \<noteq> None"
    proof (cases "a = parent")
      case True
      then show ?thesis by (simp add: L)
    next
      case False
      with a F[of a] have "FirstChild (h ! a) \<noteq> None" by simp
      with ti a(1) len have "LastChild (h ! a) \<noteq> None"
        by (simp add: treeInv_def firstHasLast_def)
      with False show ?thesis by (simp add: L)
    qed
  qed
  moreover have "siblingsShareParent h'"
    unfolding siblingsShareParent_def
  proof (intro allI impI)
    fix a b assume a: "a < length h'" "NextSibling (h' ! a) = Some b"
    show "Parent (h' ! b) = Parent (h' ! a)"
    proof (cases "FirstChild (h ! parent) \<noteq> None \<and> LastChild (h ! parent) = Some a")
      case True
      with a N[of a] have b: "b = n" by simp
      from True nol[OF pl] have an: "a \<noteq> n" by auto
      from own pl True have "Parent (h ! a) = Some parent"
        unfolding lastChildOwned_def by blast
      with b an show ?thesis by (simp add: P)
    next
      case False
      with a N[of a] have nx: "NextSibling (h ! a) = Some b" by auto
      with fn have an: "a \<noteq> n" by auto
      from nx nob[of a] a(1) len have bn: "b \<noteq> n" by auto
      from ti a(1) len nx have "Parent (h ! b) = Parent (h ! a)"
        unfolding treeInv_def siblingsShareParent_def by auto
      with an bn show ?thesis by (simp add: P)
    qed
  qed
  moreover have "parentIsHigher h'"
    unfolding parentIsHigher_def
  proof (intro allI impI)
    fix a q assume a: "a < length h'" "Parent (h' ! a) = Some q"
    show "level (h' ! q) < level (h' ! a)"
    proof (cases "a = n")
      case True
      with a P[of a] lv show ?thesis by (simp add: lev)
    next
      case False
      with a P[of a] have "Parent (h ! a) = Some q" by simp
      with ti a(1) len show ?thesis
        unfolding treeInv_def parentIsHigher_def by (auto simp: lev)
    qed
  qed
  ultimately show ?thesis by (simp add: treeInv_def)
qed

lemma treeInv_sibling:
  assumes ti: "treeInv h"
    and f: "fresh h n" and sl: "s < length h" and sn: "s \<noteq> n"
    and lk: "siblingLinked h s n h'"
    and lv: "\<forall>q. Parent (h ! s) = Some q \<longrightarrow> level (h ! q) < level (h ! n)"
  shows "treeInv h'"
proof -
  from lk have len: "length h' = length h" and lev: "\<And>x. level (h' ! x) = level (h ! x)"
    by (simp_all add: siblingLinked_def samePayload_def)
  from lk have P: "\<And>x. Parent (h' ! x) = (if x = n then Parent (h ! s) else Parent (h ! x))"
    and F: "\<And>x. FirstChild (h' ! x) = FirstChild (h ! x)"
    and L: "\<And>x. LastChild (h' ! x) =
              (if Parent (h ! s) = Some x then Some n else LastChild (h ! x))"
    and N: "\<And>x. NextSibling (h' ! x) = (if x = s then Some n else NextSibling (h ! x))"
    by (simp_all add: siblingLinked_def)
  from f have fn: "NextSibling (h ! n) = None"
    and nob: "\<And>a. a < length h \<Longrightarrow> NextSibling (h ! a) \<noteq> Some n"
    by (simp_all add: fresh_def)
  have "firstHasLast h'"
    unfolding firstHasLast_def
  proof (intro allI impI)
    fix a assume a: "a < length h'" "FirstChild (h' ! a) \<noteq> None"
    then have "FirstChild (h ! a) \<noteq> None" by (simp add: F)
    with ti a(1) len have "LastChild (h ! a) \<noteq> None"
      by (simp add: treeInv_def firstHasLast_def)
    then show "LastChild (h' ! a) \<noteq> None" by (simp add: L)
  qed
  moreover have "siblingsShareParent h'"
    unfolding siblingsShareParent_def
  proof (intro allI impI)
    fix a b assume a: "a < length h'" "NextSibling (h' ! a) = Some b"
    show "Parent (h' ! b) = Parent (h' ! a)"
    proof (cases "a = s")
      case True
      with a N[of a] have "b = n" by simp
      with True sn show ?thesis by (simp add: P)
    next
      case False
      with a N[of a] have nx: "NextSibling (h ! a) = Some b" by simp
      with fn have an: "a \<noteq> n" by auto
      from nx nob[of a] a(1) len have bn: "b \<noteq> n" by auto
      from ti a(1) len nx have "Parent (h ! b) = Parent (h ! a)"
        unfolding treeInv_def siblingsShareParent_def by auto
      with an bn show ?thesis by (simp add: P)
    qed
  qed
  moreover have "parentIsHigher h'"
    unfolding parentIsHigher_def
  proof (intro allI impI)
    fix a q assume a: "a < length h'" "Parent (h' ! a) = Some q"
    show "level (h' ! q) < level (h' ! a)"
    proof (cases "a = n")
      case True
      with a P[of a] lv show ?thesis by (simp add: lev)
    next
      case False
      with a P[of a] have "Parent (h ! a) = Some q" by simp
      with ti a(1) len show ?thesis
        unfolding treeInv_def parentIsHigher_def by (auto simp: lev)
    qed
  qed
  ultimately show ?thesis by (simp add: treeInv_def)
qed

lemma addChild_ok:
  assumes w: "firstHasLast h" and pl: "parent < length h" and pn: "parent \<noteq> n"
  shows "\<exists>h'. addChild h parent n = Inr h'"
proof (cases "FirstChild (h ! parent)")
  case None
  with pn show ?thesis by (simp add: addChild_def Let_def nth_setters)
next
  case (Some c)
  with w pl obtain l where "LastChild (h ! parent) = Some l"
    unfolding firstHasLast_def by fastforce
  with Some pn show ?thesis by (simp add: addChild_def Let_def nth_setters)
qed


lemma sibling_step:
  assumes hi: "heapInv h ks" and ti: "treeInv h" and f: "fresh h n"
    and sl: "sib < length h" and sn: "sib \<noteq> n"
    and lv: "\<forall>q. Parent (h ! sib) = Some q \<longrightarrow> level (h ! q) < level (h ! n)"
  shows "\<exists>h'. addSibling h sib n = Inr h' \<and> treeInv h' \<and> samePayload h h' \<and>
           Parent (h' ! n) = Parent (h ! sib) \<and>
           (\<forall>x. x \<noteq> n \<longrightarrow> Parent (h' ! x) = Parent (h ! x))"
proof -
  from hi have r: "pointersInRange h" and asc: "nextAscends h" by (simp_all add: heapInv_def)
  from ti have sp: "siblingsShareParent h" by (simp add: treeInv_def)
  from lastSibling_end[OF r asc sl] obtain s where ls: "lastSibling h sib = Some s"
    and s: "s < length h"
    and how: "s = sib \<or> (\<exists>x < length h. NextSibling (h ! x) = Some s)" by blast
  from how sn f have s_n: "s \<noteq> n" by (auto simp: fresh_def)
  from addSibling_linked[OF f s s_n r ls] obtain h' where a: "addSibling h sib n = Inr h'"
    and lk: "siblingLinked h s n h'" by blast
  from lastSibling_parent[OF r asc sp sl ls] have ps: "Parent (h ! s) = Parent (h ! sib)" .
  with lv have "\<forall>q. Parent (h ! s) = Some q \<longrightarrow> level (h ! q) < level (h ! n)" by simp
  from treeInv_sibling[OF ti f s s_n lk this] have "treeInv h'" .
  moreover from lk have "samePayload h h'" "Parent (h' ! n) = Parent (h ! s)"
    "\<forall>x. x \<noteq> n \<longrightarrow> Parent (h' ! x) = Parent (h ! x)"
    by (simp_all add: siblingLinked_def)
  ultimately show ?thesis using a ps by auto
qed

lemma child_step:
  assumes hi: "heapInv h ks" and ti: "treeInv h" and f: "fresh h n"
    and pl: "parent < length h" and pn: "parent \<noteq> n"
    and lv: "level (h ! parent) < level (h ! n)"
  shows "\<exists>h'. addChild h parent n = Inr h' \<and> treeInv h' \<and> samePayload h h' \<and>
           Parent (h' ! n) = Some parent \<and>
           (\<forall>x. x \<noteq> n \<longrightarrow> Parent (h' ! x) = Parent (h ! x))"
proof -
  from hi have r: "pointersInRange h" and own: "lastChildOwned h" by (simp_all add: heapInv_def)
  from ti have w: "firstHasLast h" by (simp add: treeInv_def)
  from addChild_ok[OF w pl pn] obtain h' where a: "addChild h parent n = Inr h'" by blast
  with addChild_linked[OF f pn pl r] have lk: "childLinked h parent n h'" by auto
  from treeInv_child[OF ti own f pl pn lk lv] have "treeInv h'" .
  moreover from lk have "samePayload h h'" "Parent (h' ! n) = Some parent"
    "\<forall>x. x \<noteq> n \<longrightarrow> Parent (h' ! x) = Parent (h ! x)"
    by (simp_all add: childLinked_def)
  ultimately show ?thesis using a by auto
qed


lemma attach_ok:
  assumes hi: "heapInv (p_heap p) ks" and ti: "treeInv (p_heap p)"
    and pv: "p_prev p = Some pv" and pr: "pv < length (p_heap p)"
    and J: "climbs (p_heap p) pv (nat (level (p_heap p ! pv) - p_level p + int d))"
    and J2: "climbs (p_heap p) pv (d - 1)"
    and blank: "Parent nd = None" "FirstChild nd = None" "LastChild nd = None"
      "PrevSibling nd = None" "NextSibling nd = None"
    and ln: "level nd = p_level p"
  shows "\<exists>p'. attach (p\<lparr>p_heap := p_heap p @ [nd]\<rparr>) (length (p_heap p)) = Inr p' \<and>
           treeInv (p_heap p') \<and> climbs (p_heap p') (length (p_heap p)) d \<and>
           (\<exists>pv'. p_prev p' = Some pv' \<and>
              climbs (p_heap p') pv' (nat (level (p_heap p' ! pv') - p_level p + int d)) \<and>
              climbs (p_heap p') pv' (d - 1))"
proof -
  let ?h = "p_heap p" and ?n = "length (p_heap p)" and ?L = "p_level p"
  let ?h1 = "p_heap p @ [nd]"
  let ?lv = "level (?h ! pv)"
  from hi have r: "pointersInRange ?h" by (simp add: heapInv_def)
  from ti have hg: "parentIsHigher ?h" by (simp add: treeInv_def)
  from heapInv_alloc[OF hi blank] have hi1: "heapInv ?h1 ks" and fr: "fresh ?h1 ?n" by simp_all
  from treeInv_alloc[OF ti r blank(1,2,5)] have ti1: "treeInv ?h1" .
  have old: "\<And>a. a < ?n \<Longrightarrow> ?h1 ! a = ?h ! a" by (simp add: nth_append)
  have new: "?h1 ! ?n = nd" by simp
  have closed: "\<And>x q. x < ?n \<Longrightarrow> Parent (?h ! x) = Some q \<Longrightarrow> q < ?n"
    using r unfolding pointersInRange_def by blast
  have higher: "\<And>x q. x < ?n \<Longrightarrow> Parent (?h ! x) = Some q \<Longrightarrow> level (?h ! q) < level (?h ! x)"
    using hg unfolding parentIsHigher_def by blast
  have tr: "walkUp h' k (Some a) = walkUp ?h k (Some a)" "climbs h' a k = climbs ?h a k"
    if "\<forall>x. x \<noteq> ?n \<longrightarrow> Parent (h' ! x) = Parent (?h1 ! x)" "a < ?n" for h' a k
  proof -
    have e: "\<And>x. x < ?n \<Longrightarrow> Parent (h' ! x) = Parent (?h ! x)" using that(1) old by simp
    show "walkUp h' k (Some a) = walkUp ?h k (Some a)" "climbs h' a k = climbs ?h a k"
      using climbs_cong[OF r le_refl e closed that(2)] by simp_all
  qed
  have pl1: "pv < length ?h1" "pv \<noteq> ?n" using pr by simp_all
  have lv1: "level (?h1 ! pv) = ?lv" using pr by (simp add: old)
  consider (eq) "?L = ?lv" | (gt) "?lv < ?L" | (lt) "?L < ?lv" by linarith
  then show ?thesis
  proof cases
    case eq
    have c: "\<forall>q. Parent (?h1 ! pv) = Some q \<longrightarrow> level (?h1 ! q) < level (?h1 ! ?n)"
    proof (intro allI impI)
      fix q assume "Parent (?h1 ! pv) = Some q"
      with pr have q: "Parent (?h ! pv) = Some q" by (simp add: old)
      from closed[OF pr q] higher[OF pr q] eq ln show "level (?h1 ! q) < level (?h1 ! ?n)"
        by (simp add: old)
    qed
    from sibling_step[OF hi1 ti1 fr pl1 c] obtain h' where a: "addSibling ?h1 pv ?n = Inr h'"
      and t': "treeInv h'" and pay: "samePayload ?h1 h'"
      and pn: "Parent (h' ! ?n) = Parent (?h1 ! pv)"
      and po: "\<forall>x. x \<noteq> ?n \<longrightarrow> Parent (h' ! x) = Parent (?h1 ! x)" by blast
    have at: "attach (p\<lparr>p_heap := ?h1\<rparr>) ?n = Inr (p\<lparr>p_heap := h'\<rparr>)"
      using pv eq lv1 a by (simp add: attach_def Let_def)
    have cn: "climbs h' ?n d"
    proof (cases d)
      case 0
      then show ?thesis by simp
    next
      case (Suc d')
      have "nat (?lv - ?L + int d) = Suc d'" using eq Suc by simp
      with J have "climbs ?h pv (Suc d')" by simp
      then obtain q where q: "Parent (?h ! pv) = Some q" "climbs ?h q d'"
        by (auto simp: climbs_Suc)
      from closed[OF pr q(1)] tr(2)[OF po] q(2) have "climbs h' q d'" by simp
      moreover from pn q(1) pr have "Parent (h' ! ?n) = Some q" by (simp add: old)
      ultimately show ?thesis using Suc by (auto simp: climbs_Suc)
    qed
    from pay have "level (h' ! pv) = ?lv" using lv1 by (simp add: samePayload_def)
    with J J2 tr(2)[OF po pr]
    have "climbs h' pv (nat (level (h' ! pv) - ?L + int d)) \<and> climbs h' pv (d - 1)" by simp
    with at t' cn pv show ?thesis by auto
  next
    case gt
    from gt ln have c: "level (?h1 ! pv) < level (?h1 ! ?n)" using lv1 by simp
    from child_step[OF hi1 ti1 fr pl1 c] obtain h' where a: "addChild ?h1 pv ?n = Inr h'"
      and t': "treeInv h'" and pay: "samePayload ?h1 h'"
      and pn: "Parent (h' ! ?n) = Some pv"
      and po: "\<forall>x. x \<noteq> ?n \<longrightarrow> Parent (h' ! x) = Parent (?h1 ! x)" by blast
    have at: "attach (p\<lparr>p_heap := ?h1\<rparr>) ?n = Inr (p\<lparr>p_heap := h'\<rparr>)"
      using pv gt lv1 a by (simp add: attach_def Let_def)
    have cn: "climbs h' ?n d"
    proof (cases d)
      case 0
      then show ?thesis by simp
    next
      case (Suc d')
      with J2 tr(2)[OF po pr] have "climbs h' pv d'" by simp
      with pn Suc show ?thesis by (auto simp: climbs_Suc)
    qed
    from pay have "level (h' ! pv) = ?lv" using lv1 by (simp add: samePayload_def)
    with J J2 tr(2)[OF po pr]
    have "climbs h' pv (nat (level (h' ! pv) - ?L + int d)) \<and> climbs h' pv (d - 1)" by simp
    with at t' cn pv show ?thesis by auto
  next
    case lt
    define k0 where "k0 = nat (?lv - ?L - 1)"
    from lt have k: "nat (?lv - ?L + int d) = k0 + Suc d" "int k0 = ?lv - ?L - 1"
      by (simp_all add: k0_def)
    from J k(1) have "climbs ?h pv (k0 + Suc d)" by simp
    from climbs_split[OF this] obtain a' where w: "walkUp ?h k0 (Some pv) = Inr (Some a')"
      and ca: "climbs ?h a' (Suc d)" by blast
    from ca obtain q where q: "Parent (?h ! a') = Some q" "climbs ?h q d"
      by (auto simp: climbs_Suc)
    from walkUp_range[OF r pr w] have al: "a' < ?n" .
    from closed[OF al q(1)] have ql: "q < ?n" .
    from walkUp_level[OF hg r pr w] k(2) have la: "level (?h ! a') \<le> ?L + 1" by simp
    from higher[OF al q(1)] la have lq: "level (?h ! q) \<le> ?L" by simp
    have w1: "walkUp ?h1 k0 (Some pv) = Inr (Some a')"
      using tr(1)[of ?h1 pv k0] pr w by simp
    have q1: "Parent (?h1 ! a') = Some q" using al q(1) by (simp add: old)
    have c: "\<forall>q'. Parent (?h1 ! q) = Some q' \<longrightarrow> level (?h1 ! q') < level (?h1 ! ?n)"
    proof (intro allI impI)
      fix q' assume "Parent (?h1 ! q) = Some q'"
      with ql have q': "Parent (?h ! q) = Some q'" by (simp add: old)
      from closed[OF ql q'] higher[OF ql q'] lq ln show "level (?h1 ! q') < level (?h1 ! ?n)"
        by (simp add: old)
    qed
    have ql1: "q < length ?h1" "q \<noteq> ?n" using ql by simp_all
    from sibling_step[OF hi1 ti1 fr ql1 c] obtain h' where a: "addSibling ?h1 q ?n = Inr h'"
      and t': "treeInv h'" and pay: "samePayload ?h1 h'"
      and pn: "Parent (h' ! ?n) = Parent (?h1 ! q)"
      and po: "\<forall>x. x \<noteq> ?n \<longrightarrow> Parent (h' ! x) = Parent (?h1 ! x)" by blast
    have at: "attach (p\<lparr>p_heap := ?h1\<rparr>) ?n = Inr (p\<lparr>p_heap := h', p_prev := Some a'\<rparr>)"
      using pv lt lv1 a w1 q1 by (simp add: attach_def Let_def k0_def)
    have cn: "climbs h' ?n d"
    proof (cases d)
      case 0
      then show ?thesis by simp
    next
      case (Suc d')
      with q(2) obtain q' where q': "Parent (?h ! q) = Some q'" "climbs ?h q' d'"
        by (auto simp: climbs_Suc)
      from closed[OF ql q'(1)] tr(2)[OF po] q'(2) have "climbs h' q' d'" by simp
      moreover from pn q'(1) ql have "Parent (h' ! ?n) = Some q'" by (simp add: old)
      ultimately show ?thesis using Suc by (auto simp: climbs_Suc)
    qed
    from pay al have "level (h' ! a') = level (?h ! a')" by (simp add: samePayload_def old)
    with la have "nat (level (h' ! a') - ?L + int d) \<le> Suc d" by simp
    with ca tr(2)[OF po al]
    have "climbs h' a' (nat (level (h' ! a') - ?L + int d)) \<and> climbs h' a' (d - 1)"
      by (auto intro: climbs_mono)
    with at t' cn show ?thesis by auto
  qed
qed


lemma frame_heap_prev:
  assumes "p' = p\<lparr>p_heap := p_heap p', p_prev := p_prev p'\<rparr>"
  shows "p_level p' = p_level p" "p_decoder p' = p_decoder p"
    "p_space2prefix p' = p_space2prefix p"
proof -
  from assms obtain h v where e: "p' = p\<lparr>p_heap := h, p_prev := v\<rparr>" by blast
  show "p_level p' = p_level p" "p_decoder p' = p_decoder p"
    "p_space2prefix p' = p_space2prefix p" by (simp_all add: e)
qed

lemma frame_heap_prev_level:
  assumes "p' = p\<lparr>p_heap := p_heap p', p_prev := p_prev p', p_level := p_level p'\<rparr>"
  shows "p_decoder p' = p_decoder p" "p_space2prefix p' = p_space2prefix p"
proof -
  from assms obtain h v l where e: "p' = p\<lparr>p_heap := h, p_prev := v, p_level := l\<rparr>" by blast
  show "p_decoder p' = p_decoder p" "p_space2prefix p' = p_space2prefix p"
    by (simp_all add: e)
qed

lemma runInv_cache [simp]: "runInv (p\<lparr>p_cache := x\<rparr>) ks d = runInv p ks d"
  by (simp add: runInv_def cursorInv_def)

lemma addNode_ok:
  assumes inv: "runInv p ks d" and ty: "t \<noteq> ElementNode"
  shows "\<exists>p' ks'. addNode p (newNode t dat (p_level p)) c = Continue p' c \<and> runInv p' ks' d \<and>
           hasElement (p_heap p') = hasElement (p_heap p) \<and> p_decoder p' = p_decoder p"
proof -
  let ?nd = "newNode t dat (p_level p)"
  from inv have pinv: "parserInv p ks" and ti: "treeInv (p_heap p)" and ci: "cursorInv p d"
    by (simp_all add: runInv_def)
  from ci obtain pv where pv: "p_prev p = Some pv"
    and J: "climbs (p_heap p) pv (nat (level (p_heap p ! pv) - p_level p + int d))"
    and J2: "climbs (p_heap p) pv (d - 1)"
    by (auto simp: cursorInv_def)
  from ci have e: "if hasElement (p_heap p) then int d < p_level p else d = 0"
    by (simp add: cursorInv_def)
  from pinv pv have pr: "pv < length (p_heap p)" and hi: "heapInv (p_heap p) ks"
    by (simp_all add: parserInv_def)
  have ln: "level ?nd = p_level p" by (simp add: newNode_def)
  from attach_ok[OF hi ti pv pr J J2 _ _ _ _ _ ln] obtain p' where
    at: "attach (p\<lparr>p_heap := p_heap p @ [?nd]\<rparr>) (length (p_heap p)) = Inr p'"
    and t': "treeInv (p_heap p')"
    and c': "\<exists>pv'. p_prev p' = Some pv' \<and>
              climbs (p_heap p') pv' (nat (level (p_heap p' ! pv') - p_level p + int d)) \<and>
              climbs (p_heap p') pv' (d - 1)"
    by auto
  from at have an: "addNode p ?nd c = Continue p' c" by (simp add: addNode_def Let_def)
  from addNode_inv[OF pinv ty an] obtain ks' where pi': "parserInv p' ks'"
    and he: "hasElement (p_heap p') = hasElement (p_heap p)"
    and fr: "p' = p\<lparr>p_heap := p_heap p', p_prev := p_prev p'\<rparr>" by blast
  note f = frame_heap_prev[OF fr]
  from c' e he f(1) have "cursorInv p' d" by (simp add: cursorInv_def)
  with pi' t' have "runInv p' ks' d" by (simp add: runInv_def)
  with an he f(2) show ?thesis by blast
qed

lemma endElement_ok:
  assumes inv: "runInv p0 ks d" and d: "0 < d"
  shows "\<exists>p'. endElement p0 c = Continue p' c \<and> runInv p' ks (d - 1) \<and>
           hasElement (p_heap p') \<and> p_decoder p' = p_decoder p0"
proof -
  from inv have pinv: "parserInv p0 ks" and ti: "treeInv (p_heap p0)" and ci: "cursorInv p0 d"
    by (simp_all add: runInv_def)
  from ci d have he: "hasElement (p_heap p0)" and lv: "int d < p_level p0"
    by (auto simp: cursorInv_def split: if_splits)
  from ci obtain pv where pv: "p_prev p0 = Some pv"
    and J: "climbs (p_heap p0) pv (nat (level (p_heap p0 ! pv) - p_level p0 + int d))"
    and J2: "climbs (p_heap p0) pv (d - 1)"
    by (auto simp: cursorInv_def)
  let ?p = "p0\<lparr>p_level := p_level p0 - 1\<rparr>"
  from pinv have "p_streamNode p0 = None" by (simp add: parserInv_def)
  then have en: "endElement p0 c = Continue ?p c" by (simp add: endElement_def Let_def)
  from endElement_inv[OF pinv he en] have pi': "parserInv ?p ks" by simp
  have "nat (level (p_heap p0 ! pv) - (p_level p0 - 1) + int (d - 1))
          = nat (level (p_heap p0 ! pv) - p_level p0 + int d)" using d by simp
  moreover from J2 have "climbs (p_heap p0) pv (d - 1 - 1)" by (rule climbs_mono) simp
  ultimately have "cursorInv ?p (d - 1)"
    using pv J he lv d by (simp add: cursorInv_def)
  with pi' ti have "runInv ?p ks (d - 1)" by (simp add: runInv_def)
  with en he show ?thesis by auto
qed


lemma procInst_ok:
  assumes inv: "runInv p0 ks d"
  shows "\<exists>p' ks'. procInst target inst p0 c = Continue p' c \<and> runInv p' ks' d \<and>
           hasElement (p_heap p') = hasElement (p_heap p0) \<and> p_decoder p' = p_decoder p0"
proof -
  from inv have pinv: "parserInv p0 ks" and ti: "treeInv (p_heap p0)" and ci: "cursorInv p0 d"
    by (simp_all add: runInv_def)
  from ci obtain pv where pv: "p_prev p0 = Some pv"
    and J: "climbs (p_heap p0) pv (nat (level (p_heap p0 ! pv) - p_level p0 + int d))"
    and J2: "climbs (p_heap p0) pv (d - 1)"
    by (auto simp: cursorInv_def)
  from ci have e: "if hasElement (p_heap p0) then int d < p_level p0 else d = 0"
    by (simp add: cursorInv_def)
  from pinv pv have pr: "pv < length (p_heap p0)" and hi: "heapInv (p_heap p0) ks"
    by (simp_all add: parserInv_def)
  let ?bump = "\<not> (Type (p_heap p0 ! pv) = DeclarationNode \<or>
                    Type (p_heap p0 ! pv) = ProcessingInstruction)"
  define p where "p = (if ?bump then p0\<lparr>p_level := p_level p0 + 1\<rparr> else p0)"
  define node0 where "node0 = foldl addPair (newNode DeclarationNode target (p_level p))
                         (Split CHR '' '' inst)"
  define node where "node = (if target \<noteq> ''xml''
                       then node0\<lparr>Type := ProcessingInstruction,
                                  ProcInst := Some \<lparr>Target = target, Inst = TrimSpace inst\<rparr>\<rparr>
                       else node0)"
  let ?h = "p_heap p" and ?n = "length (p_heap p)"
  have hp: "p_heap p = p_heap p0" "p_prev p = p_prev p0" and lp: "p_level p0 \<le> p_level p"
    by (simp_all add: p_def)
  have unf: "procInst target inst p0 c =
      (case attach (p\<lparr>p_heap := ?h @ [node]\<rparr>) ?n of
         Inl e \<Rightarrow> Return (Inl e) (p\<lparr>p_heap := ?h @ [node]\<rparr>)
       | Inr p2 \<Rightarrow> Continue (p2\<lparr>p_prev := Some ?n\<rparr>) c)"
    unfolding procInst_def Let_def p_def node_def node0_def using pv by simp
  from foldl_addPair_keeps[of "newNode DeclarationNode target (p_level p)" "Split CHR '' '' inst"]
  have n0: "Parent node0 = None" "FirstChild node0 = None" "LastChild node0 = None"
    "PrevSibling node0 = None" "NextSibling node0 = None" "level node0 = p_level p"
    by (simp_all add: node0_def newNode_def)
  then have nd: "Parent node = None" "FirstChild node = None" "LastChild node = None"
    "PrevSibling node = None" "NextSibling node = None" "level node = p_level p"
    by (simp_all add: node_def)
  have "nat (level (?h ! pv) - p_level p + int d) \<le> nat (level (p_heap p0 ! pv) - p_level p0 + int d)"
    using lp hp by simp
  with J hp have J': "climbs ?h pv (nat (level (?h ! pv) - p_level p + int d))"
    by (auto intro: climbs_mono)
  from hi ti pv pr J2 hp have a: "heapInv ?h ks" "treeInv ?h" "p_prev p = Some pv"
    "pv < length ?h" "climbs ?h pv (d - 1)" by simp_all
  from attach_ok[OF a(1,2,3,4) J' a(5) nd] obtain p2 where
    at: "attach (p\<lparr>p_heap := ?h @ [node]\<rparr>) ?n = Inr p2"
    and t2: "treeInv (p_heap p2)" and cn: "climbs (p_heap p2) ?n d"
    by auto
  let ?p' = "p2\<lparr>p_prev := Some ?n\<rparr>"
  from unf at have pc: "procInst target inst p0 c = Continue ?p' c" by simp
  from procInst_inv[OF pinv pc] obtain ks' where pi': "parserInv ?p' ks'"
    and he: "hasElement (p_heap ?p') = hasElement (p_heap p0)"
    and fr: "?p' = p0\<lparr>p_heap := p_heap ?p', p_prev := p_prev ?p', p_level := p_level ?p'\<rparr>"
    by blast
  note f = frame_heap_prev_level[OF fr]
  from attach_frame[OF at] have "p2 = (p\<lparr>p_heap := ?h @ [node]\<rparr>)\<lparr>p_heap := p_heap p2, p_prev := p_prev p2\<rparr>" .
  from frame_heap_prev(1)[OF this] have l2: "p_level p2 = p_level p" by simp
  from hi a(1) have r: "pointersInRange ?h" by (simp add: heapInv_def)
  from attachNew_inv[OF a(1) _ nd(1-5) at] a(3,4) have "samePayload (?h @ [node]) (p_heap p2)"
    by auto
  then have "level (p_heap p2 ! ?n) = level node" by (simp add: samePayload_def)
  with nd(6) l2 have "nat (level (p_heap p2 ! ?n) - p_level p2 + int d) = d" by simp
  moreover from cn have "climbs (p_heap p2) ?n (d - 1)" by (rule climbs_mono) simp
  moreover from e he lp l2 have "if hasElement (p_heap p2) then int d < p_level p2 else d = 0"
    by (auto split: if_splits)
  ultimately have "cursorInv ?p' d" using cn by (simp add: cursorInv_def)
  with pi' t2 have "runInv ?p' ks' d" by (simp add: runInv_def)
  with pc he f(1) show ?thesis by blast
qed

lemma missingDeclaration_ok:
  assumes inv: "runInv p0 ks d"
  shows "\<exists>p1 ks1. missingDeclaration p0 = Inr p1 \<and> runInv p1 ks1 d \<and>
           hasElement (p_heap p1) = hasElement (p_heap p0) \<and>
           (\<not> hasElement (p_heap p1) \<longrightarrow> p_level p1 = 1)"
proof (cases "p_level p0 = 0")
  case False
  then have md: "missingDeclaration p0 = Inr p0" by (simp add: missingDeclaration_def)
  from inv have "parserInv p0 ks" by (simp add: runInv_def)
  from missingDeclaration_inv[OF this md] inv md show ?thesis by blast
next
  case True
  from inv have pinv: "parserInv p0 ks" and ti: "treeInv (p_heap p0)" and ci: "cursorInv p0 d"
    by (simp_all add: runInv_def)
  from ci True have nhe: "\<not> hasElement (p_heap p0)" and d: "d = 0"
    by (auto simp: cursorInv_def split: if_splits)
  with pinv True have pv: "p_prev p0 = Some 0"
    by (auto simp: parserInv_def beforeElements_def)
  from pinv have hi: "heapInv (p_heap p0) ks" by (simp add: parserInv_def)
  let ?h0 = "p_heap p0" and ?n = "length (p_heap p0)"
  define nd where "nd = (newNode DeclarationNode ''xml'' 1)\<lparr>Attrs := declAttributes\<rparr>"
  have blank: "Parent nd = None" "FirstChild nd = None" "LastChild nd = None"
    "PrevSibling nd = None" "NextSibling nd = None" and ln: "level nd = 1"
    by (simp_all add: nd_def newNode_def)
  from hi have r: "pointersInRange ?h0" and l0: "level (?h0 ! 0) = 0" and z: "0 < ?n"
    by (simp_all add: heapInv_def topChildren_def childrenOf_def)
  from heapInv_alloc[OF hi blank] have hi1: "heapInv (?h0 @ [nd]) ks"
    and fr: "fresh (?h0 @ [nd]) ?n" by simp_all
  from treeInv_alloc[OF ti r blank(1,2,5)] have ti1: "treeInv (?h0 @ [nd])" .
  have c: "level ((?h0 @ [nd]) ! 0) < level ((?h0 @ [nd]) ! ?n)"
    using z l0 ln by (simp add: nth_append)
  have "0 < length (?h0 @ [nd])" "0 \<noteq> ?n" using z by simp_all
  from child_step[OF hi1 ti1 fr this c] obtain h' where
    a: "addChild (?h0 @ [nd]) 0 ?n = Inr h'" and t': "treeInv h'"
    and pay: "samePayload (?h0 @ [nd]) h'" by blast
  from pay ln have ln': "level (h' ! ?n) = 1" by (simp add: samePayload_def)
  let ?p1 = "p0\<lparr>p_heap := h', p_level := 1, p_prev := Some ?n\<rparr>"
  have md: "missingDeclaration p0 = Inr ?p1"
    using True pv a by (simp add: missingDeclaration_def Let_def nd_def)
  from missingDeclaration_inv[OF pinv md] obtain ks1 where pi1: "parserInv ?p1 ks1"
    and he: "hasElement (p_heap ?p1) = hasElement (p_heap p0)" by auto
  from he nhe d ln' have "cursorInv ?p1 d" by (simp add: cursorInv_def)
  with pi1 t' have "runInv ?p1 ks1 d" by (simp add: runInv_def)
  with md he show ?thesis by (intro exI[of _ ?p1] exI[of _ ks1]) simp
qed


lemma treeInv_links:
  assumes len: "length h' = length h"
    and lk: "\<forall>x. Parent (h' ! x) = Parent (h ! x) \<and> FirstChild (h' ! x) = FirstChild (h ! x) \<and>
        LastChild (h' ! x) = LastChild (h ! x) \<and> NextSibling (h' ! x) = NextSibling (h ! x) \<and>
        level (h' ! x) = level (h ! x)"
  shows "treeInv h' = treeInv h"
  unfolding treeInv_def firstHasLast_def siblingsShareParent_def parentIsHigher_def
  using len lk by simp

lemma climbs_links:
  assumes "\<forall>x. Parent (h' ! x) = Parent (h ! x)"
  shows "climbs h' a k = climbs h a k"
proof -
  have "walkUp h' k (Some a) = walkUp h k (Some a)"
    by (rule walkUp_cong[where P = "\<lambda>x. True"]) (use assms in auto)
  then show ?thesis by (simp add: climbs_def)
qed

lemma recoverPrefix_data:
  "Data (recoverPrefix p n ! x) = Data (p_heap p ! x) \<and>
   NamespaceURI (recoverPrefix p n ! x) = NamespaceURI (p_heap p ! x) \<and>
   Attrs (recoverPrefix p n ! x) = Attrs (p_heap p ! x)"
proof -
  have upd: "\<And>v x. (p_heap p)[n := (p_heap p ! n)\<lparr>Prefix := v\<rparr>] ! x =
      (if n = x \<and> n < length (p_heap p) then (p_heap p ! x)\<lparr>Prefix := v\<rparr> else p_heap p ! x)"
    by (rule nth_upd_field)
  show ?thesis
    unfolding recoverPrefix_def Let_def
    by (simp add: upd split: option.splits)
qed

lemma startElement_ok:
  assumes inv: "runInv p0 ks d" and md: "missingDeclaration p0 = Inr p1"
    and m: "m = bindNamespaces (p_level p1) (p_space2prefix p1) atts"
  shows "if Space nm \<noteq> [] \<and> m (Space nm) = None \<and> Strict (p_decoder p0)
         then startElement nm atts p0 c
                = Return (Inl (NamespaceMissing (Space nm))) (p1\<lparr>p_space2prefix := m\<rparr>)
         else (\<exists>p' ks'. startElement nm atts p0 c = Continue p' c \<and> runInv p' ks' (Suc d) \<and>
                 hasElement (p_heap p') \<and> p_decoder p' = p_decoder p0 \<and>
                 p_level p' = p_level p1 + 1 \<and> p_prev p' = Some (length (p_heap p1)) \<and>
                 Type (p_heap p' ! length (p_heap p1)) = ElementNode \<and>
                 Data (p_heap p' ! length (p_heap p1)) = Local nm \<and>
                 NamespaceURI (p_heap p' ! length (p_heap p1)) = Space nm)"
proof -
  from inv have pinv0: "parserInv p0 ks" by (simp add: runInv_def)
  from missingDeclaration_ok[OF inv] md obtain ks1 where inv1: "runInv p1 ks1 d"
    and lv1: "\<not> hasElement (p_heap p1) \<longrightarrow> p_level p1 = 1" by auto
  from inv1 have pinv: "parserInv p1 ks1" and ti: "treeInv (p_heap p1)"
    and ci: "cursorInv p1 d" by (simp_all add: runInv_def)
  from ci obtain pv where pv: "p_prev p1 = Some pv"
    and J: "climbs (p_heap p1) pv (nat (level (p_heap p1 ! pv) - p_level p1 + int d))"
    and J2: "climbs (p_heap p1) pv (d - 1)"
    by (auto simp: cursorInv_def)
  from ci lv1 have dl: "int d < p_level p1" by (auto simp: cursorInv_def split: if_splits)
  from pinv pv have pr: "pv < length (p_heap p1)" and hi: "heapInv (p_heap p1) ks1"
    and s1: "p_streamElementXPath p1 = None"
    by (simp_all add: parserInv_def)
  from missingDeclaration_frame[OF md] have d1: "p_decoder p1 = p_decoder p0"
    by (rule frame_heap_prev_level(1))
  define p2 where "p2 = p1\<lparr>p_space2prefix := m\<rparr>"
  define node where "node = (newNode ElementNode (Local nm) (p_level p2))
      \<lparr>NamespaceURI := Space nm, Attrs := map (resolveAttr m) atts\<rparr>"
  let ?h = "p_heap p2" and ?n = "length (p_heap p2)"
  have f2: "p_heap p2 = p_heap p1" "p_prev p2 = p_prev p1" "p_level p2 = p_level p1"
    "p_streamElementXPath p2 = p_streamElementXPath p1" "p_decoder p2 = p_decoder p1"
    by (simp_all add: p2_def)
  have unf: "startElement nm atts p0 c =
      (if Space nm \<noteq> [] \<and> m (Space nm) = None \<and> Strict (p_decoder p2)
       then Return (Inl (NamespaceMissing (Space nm))) p2
       else case attach (p2\<lparr>p_heap := ?h @ [node]\<rparr>) ?n of
              Inl e \<Rightarrow> Return (Inl e) (p2\<lparr>p_heap := ?h @ [node]\<rparr>)
            | Inr p4 \<Rightarrow>
                (case streamMark (p4\<lparr>p_heap := recoverPrefix p4 ?n\<rparr>) ?n c of
                   (p6, counter') \<Rightarrow>
                     Continue (p6\<lparr>p_prev := Some ?n, p_level := p_level p6 + 1\<rparr>) counter'))"
    unfolding startElement_def Let_def m p2_def node_def using md by simp
  show ?thesis
  proof (cases "Space nm \<noteq> [] \<and> m (Space nm) = None \<and> Strict (p_decoder p0)")
    case True
    with unf f2 d1 show ?thesis by (simp add: p2_def)
  next
    case False
    have nd: "Parent node = None" "FirstChild node = None" "LastChild node = None"
      "PrevSibling node = None" "NextSibling node = None" "level node = p_level p2"
      and nd2: "Type node = ElementNode" "Data node = Local nm" "NamespaceURI node = Space nm"
      by (simp_all add: node_def newNode_def)
    from hi ti pv pr J J2 f2 have a: "heapInv ?h ks1" "treeInv ?h" "p_prev p2 = Some pv"
      "pv < length ?h" "climbs ?h pv (nat (level (?h ! pv) - p_level p2 + int d))"
      "climbs ?h pv (d - 1)" by simp_all
    from attach_ok[OF a nd] obtain p4 where
      at: "attach (p2\<lparr>p_heap := ?h @ [node]\<rparr>) ?n = Inr p4"
      and t4: "treeInv (p_heap p4)" and cn: "climbs (p_heap p4) ?n d"
      by auto
    from attach_frame[OF at]
    have "p4 = (p2\<lparr>p_heap := ?h @ [node]\<rparr>)\<lparr>p_heap := p_heap p4, p_prev := p_prev p4\<rparr>" .
    then obtain hh vv where e4: "p4 = p2\<lparr>p_heap := hh, p_prev := vv\<rparr>" by simp
    then have f4: "p_level p4 = p_level p2" "p_streamElementXPath p4 = p_streamElementXPath p2"
      by simp_all
    from attachNew_inv[OF a(1) _ nd(1-5) at] a(3,4)
    have pay: "samePayload (?h @ [node]) (p_heap p4)" by auto
    define h5 where "h5 = recoverPrefix p4 ?n"
    have "streamMark (p4\<lparr>p_heap := h5\<rparr>) ?n c = (p4\<lparr>p_heap := h5\<rparr>, c)"
      using f4 f2 s1 by (simp add: streamMark_def)
    with unf False at f2 d1
    have se: "startElement nm atts p0 c
        = Continue (p4\<lparr>p_heap := h5, p_prev := Some ?n, p_level := p_level p4 + 1\<rparr>) c"
      by (simp add: h5_def)
    let ?p' = "p4\<lparr>p_heap := h5, p_prev := Some ?n, p_level := p_level p4 + 1\<rparr>"
    from startElement_inv[OF pinv0 se] obtain ks' where pi': "parserInv ?p' ks'"
      and he: "hasElement (p_heap ?p')" and dc: "p_decoder ?p' = p_decoder p0" by blast
    from recoverPrefix_links[of p4 ?n] have t5: "treeInv h5 = treeInv (p_heap p4)"
      unfolding h5_def by (intro treeInv_links) simp_all
    from recoverPrefix_links[of p4 ?n] have c5: "\<And>a k. climbs h5 a k = climbs (p_heap p4) a k"
      unfolding h5_def by (intro climbs_links) simp
    from recoverPrefix_links[of p4 ?n] recoverPrefix_data[of p4 ?n ?n] pay nd nd2
    have n5: "level (h5 ! ?n) = p_level p2" "Type (h5 ! ?n) = ElementNode"
      "Data (h5 ! ?n) = Local nm" "NamespaceURI (h5 ! ?n) = Space nm"
      unfolding h5_def by (simp_all add: samePayload_def)
    have "nat (level (h5 ! ?n) - (p_level p4 + 1) + int (Suc d)) = d"
      using n5(1) f4(1) by simp
    then have "cursorInv ?p' (Suc d)"
      using cn c5 he dl f4(1) f2(3) by (simp add: cursorInv_def)
    with pi' t4 t5 have "runInv ?p' ks' (Suc d)" by (simp add: runInv_def)
    with se he dc n5 f4 f2 False show ?thesis
      by (intro exI[of _ ?p'] exI[of _ ks'] if_not_P[THEN iffD2]) auto
  qed
qed


lemma nesting_Cons:
  "nesting d (tok # ts) \<longleftrightarrow> nesting d [tok] \<and> nesting (opened d [tok]) ts"
  by (cases tok) simp_all

lemma opened_Cons: "opened d (tok # ts) = opened (opened d [tok]) ts"
  by (cases tok) simp_all

lemma step_ok:
  assumes inv: "runInv p ks d" and n: "nesting d [tok]"
  shows "(\<exists>p' ks'. step tok p c = Continue p' c \<and> runInv p' ks' (opened d [tok]) \<and>
            p_decoder p' = p_decoder p) \<or>
         (Strict (p_decoder p) \<and> (\<exists>s p'. step tok p c = Return (Inl (NamespaceMissing s)) p'))"
proof (cases tok)
  case (xml_StartElement nm atts)
  from missingDeclaration_ok[OF inv] obtain p1 where md: "missingDeclaration p = Inr p1"
    by blast
  let ?m = "bindNamespaces (p_level p1) (p_space2prefix p1) atts"
  show ?thesis
  proof (cases "Space nm \<noteq> [] \<and> ?m (Space nm) = None \<and> Strict (p_decoder p)")
    case True
    with startElement_ok[OF inv md refl, of nm atts c] xml_StartElement show ?thesis by auto
  next
    case False
    with startElement_ok[OF inv md refl, of nm atts c] obtain p' ks' where
      "startElement nm atts p c = Continue p' c" "runInv p' ks' (Suc d)"
      "p_decoder p' = p_decoder p" by auto
    with xml_StartElement show ?thesis by auto
  qed
next
  case (xml_EndElement nm)
  with n have "0 < d" by simp
  from endElement_ok[OF inv this, of c] xml_EndElement show ?thesis by auto
next
  case (xml_CharData t)
  have "charDataType (p_cache p) \<noteq> ElementNode" by (simp add: charDataType_def Let_def)
  from addNode_ok[OF inv this, of t c] xml_CharData show ?thesis
    by (auto simp: charData_def)
next
  case (xml_Comment t)
  from addNode_ok[OF inv, of CommentNode t c] xml_Comment show ?thesis
    by (auto simp: comment_def)
next
  case (xml_ProcInst target inst)
  from procInst_ok[OF inv, of target inst c] xml_ProcInst show ?thesis by auto
next
  case (xml_Directive t)
  from addNode_ok[OF inv, of NotationNode t c] xml_Directive show ?thesis
    by (auto simp: directive_def)
qed


lemma steps_ok:
  assumes "runInv p ks d" and "nesting d (map fst ts)"
  shows "(\<exists>p' ks'. steps ts p c = Continue p' c \<and> runInv p' ks' (opened d (map fst ts)) \<and>
            p_decoder p' = p_decoder p) \<or>
         (Strict (p_decoder p) \<and> (\<exists>s p'. steps ts p c = Return (Inl (NamespaceMissing s)) p'))"
  using assms
proof (induction ts arbitrary: p ks d)
  case Nil
  then show ?case by auto
next
  case (Cons tr rest)
  obtain tok raw where tr: "tr = (tok, raw)" by (cases tr)
  let ?q = "p\<lparr>p_cache := Cache raw\<rparr>"
  from Cons.prems(2) tr have n1: "nesting d [tok]"
    and n2: "nesting (opened d [tok]) (map fst rest)"
    using nesting_Cons[of d tok "map fst rest"] by simp_all
  have op: "opened d (map fst (tr # rest)) = opened (opened d [tok]) (map fst rest)"
    using tr opened_Cons[of d tok "map fst rest"] by simp
  from Cons.prems(1) have invq: "runInv ?q ks d" by simp
  have dq: "p_decoder ?q = p_decoder p" by simp
  from step_ok[OF invq n1, of c] show ?case
  proof
    assume "\<exists>p' ks'. step tok ?q c = Continue p' c \<and> runInv p' ks' (opened d [tok]) \<and>
            p_decoder p' = p_decoder ?q"
    then obtain p1 ks1 where st: "step tok ?q c = Continue p1 c"
      and inv1: "runInv p1 ks1 (opened d [tok])" and d1: "p_decoder p1 = p_decoder p"
      by auto
    from Cons.IH[OF inv1 n2] st tr d1 op show ?thesis by auto
  next
    assume "Strict (p_decoder ?q) \<and>
       (\<exists>s p'. step tok ?q c = Return (Inl (NamespaceMissing s)) p')"
    with tr show ?thesis by auto
  qed
qed

lemma steps_reach:
  assumes "runInv p ks d" and "nesting d (map fst ts)" and "steps ts p c = Continue p' c'"
  shows "\<exists>ks'. runInv p' ks' (opened d (map fst ts)) \<and> p_decoder p' = p_decoder p \<and> c' = c"
  using steps_ok[OF assms(1,2), of c] assms(3) by auto

lemma runInv_initial: "runInv (once (apply_options options (createParser dcd))) [] 0"
proof -
  let ?p = "once (apply_options options (createParser dcd))"
  have f: "p_heap ?p = [newNode DocumentNode [] 0]" "p_level ?p = 0" "p_prev ?p = Some 0"
    by (simp_all add: once_def apply_options_def createParser_def split: option.splits)
  have "treeInv [newNode DocumentNode [] 0]"
    by (simp add: treeInv_def firstHasLast_def siblingsShareParent_def parentIsHigher_def
        newNode_def)
  moreover have "\<not> hasElement [newNode DocumentNode [] 0]"
    by (simp add: hasElement_def newNode_def)
  ultimately show ?thesis
    unfolding runInv_def cursorInv_def f using parserInv_initial[of options dcd] by simp
qed

subsection \<open>Unbound namespaces\<close>

text \<open>
  C6.  A start tag whose name carries a namespace that is not bound once the tag's own
  declarations are applied: the step returns the error \<open>NamespaceMissing\<close> exactly when the
  decoder is strict.  In tolerant mode the step returns no error of the parser: in every
  state it continues unless attaching the element panics, and in every state that a
  full-document parse reaches on the tokens before the tag it does continue, with the
  element attached, the cursor on it and the depth one deeper.
\<close>

theorem strict_namespace:
  assumes md: "missingDeclaration p0 = Inr p1"
    and unbound: "bindNamespaces (p_level p1) (p_space2prefix p1) atts (Space nm) = None"
    and ne: "Space nm \<noteq> []"
  shows "((\<exists>p'. startElement nm atts p0 c = Return (Inl (NamespaceMissing (Space nm))) p')
            \<longleftrightarrow> Strict (p_decoder p0)) \<and>
         (\<not> Strict (p_decoder p0) \<longrightarrow>
            (\<exists>p' c'. startElement nm atts p0 c = Continue p' c' \<and>
               p_level p' = p_level p1 + 1 \<and> p_prev p' = Some (length (p_heap p1))) \<or>
            (\<exists>e p'. startElement nm atts p0 c = Return (Inl e) p' \<and>
               (e = NilDereference \<or> e = NonTermination))) \<and>
         (\<not> Strict (p_decoder p0) \<and> nesting 0 (map fst pre) \<and>
          steps pre (once (apply_options options (createParser dcd))) 0 = Continue q c0 \<and>
          p0 = q\<lparr>p_cache := cached\<rparr> \<longrightarrow>
            (\<exists>p'. startElement nm atts p0 c = Continue p' c \<and>
               p_level p' = p_level p1 + 1 \<and> p_prev p' = Some (length (p_heap p1)) \<and>
               Type (p_heap p' ! length (p_heap p1)) = ElementNode \<and>
               Data (p_heap p' ! length (p_heap p1)) = Local nm \<and>
               NamespaceURI (p_heap p' ! length (p_heap p1)) = Space nm))"
proof -
  from missingDeclaration_frame[OF md]
  have dec: "p_decoder p1 = p_decoder p0" by (rule frame_heap_prev_level(1))
  let ?m = "bindNamespaces (p_level p1) (p_space2prefix p1) atts"
  let ?p2 = "p1\<lparr>p_space2prefix := ?m\<rparr>"
  let ?node = "(newNode ElementNode (Local nm) (p_level p1))
                  \<lparr>NamespaceURI := Space nm, Attrs := map (resolveAttr ?m) atts\<rparr>"
  let ?p3 = "?p2\<lparr>p_heap := p_heap p1 @ [?node]\<rparr>"
  have A: "((\<exists>p'. startElement nm atts p0 c = Return (Inl (NamespaceMissing (Space nm))) p')
            \<longleftrightarrow> Strict (p_decoder p0)) \<and>
         (\<not> Strict (p_decoder p0) \<longrightarrow>
            (\<exists>p' c'. startElement nm atts p0 c = Continue p' c' \<and>
               p_level p' = p_level p1 + 1 \<and> p_prev p' = Some (length (p_heap p1))) \<or>
            (\<exists>e p'. startElement nm atts p0 c = Return (Inl e) p' \<and>
               (e = NilDereference \<or> e = NonTermination)))"
  proof (cases "Strict (p_decoder p0)")
    case True
    with md unbound ne dec show ?thesis
      by (simp add: startElement_def Let_def)
  next
    case False
    show ?thesis
    proof (cases "attach ?p3 (length (p_heap p1))")
      case (Inl e)
      with False md unbound ne dec attach_error[OF Inl] show ?thesis
        by (auto simp: startElement_def Let_def)
    next
      case (Inr p4)
      from attach_frame[OF Inr] have l4: "p_level p4 = p_level p1"
        by (metis parser.select_convs(4) parser.surjective parser.update_convs(2,5,12))
      obtain p6 c' where sm: "streamMark (p4\<lparr>p_heap := recoverPrefix p4 (length (p_heap p1))\<rparr>)
          (length (p_heap p1)) c = (p6, c')" by force
      from streamMark_frame[OF sm] l4 have l6: "p_level p6 = p_level p1"
        by (metis parser.select_convs(4) parser.surjective parser.update_convs(2,8,9))
      from False md unbound ne dec Inr sm l6 show ?thesis
        by (auto simp: startElement_def Let_def)
    qed
  qed
  have B: "\<exists>p'. startElement nm atts p0 c = Continue p' c \<and>
               p_level p' = p_level p1 + 1 \<and> p_prev p' = Some (length (p_heap p1)) \<and>
               Type (p_heap p' ! length (p_heap p1)) = ElementNode \<and>
               Data (p_heap p' ! length (p_heap p1)) = Local nm \<and>
               NamespaceURI (p_heap p' ! length (p_heap p1)) = Space nm"
    if t: "\<not> Strict (p_decoder p0)" and n: "nesting 0 (map fst pre)"
      and run: "steps pre (once (apply_options options (createParser dcd))) 0 = Continue q c0"
      and p0: "p0 = q\<lparr>p_cache := cached\<rparr>"
  proof -
    from steps_reach[OF runInv_initial n run] obtain ks where "runInv q ks (opened 0 (map fst pre))"
      by blast
    with p0 have inv: "runInv p0 ks (opened 0 (map fst pre))" by simp
    from startElement_ok[OF inv md refl, of nm atts c] t show ?thesis by auto
  qed
  from A B show ?thesis by blast
qed

theorem strict_namespace_witness:
  "(\<exists>p'. startElement \<lparr>Space = ''myns'', Local = ''child''\<rparr> []
            (once (createParser (newDecoder [] EOF))) 0
          = Return (Inl (NamespaceMissing ''myns'')) p') \<and>
   (\<exists>q c0. steps [(xml_StartElement \<lparr>Space = [], Local = ''r''\<rparr> [], ''<r>'')]
               (once (apply_options \<lparr>Decoder = Some \<lparr>optStrict = False\<rparr>\<rparr>
                  (createParser (newDecoder [] EOF)))) 0 = Continue q c0 \<and>
      (\<exists>p'. startElement \<lparr>Space = ''myns'', Local = ''child''\<rparr> []
               (q\<lparr>p_cache := ''<myns:child>''\<rparr>) 0 = Continue p' 0 \<and>
             p_level p' = 3 \<and> p_prev p' = Some 3 \<and>
             Type (p_heap p' ! 3) = ElementNode \<and> Data (p_heap p' ! 3) = ''child'' \<and>
             NamespaceURI (p_heap p' ! 3) = ''myns''))"
proof -
  let ?nm = "\<lparr>Space = ''myns'', Local = ''child''\<rparr>"
  let ?P = "once (createParser (newDecoder [] EOF))"
  let ?pre = "[(xml_StartElement \<lparr>Space = [], Local = ''r''\<rparr> [], ''<r>'')]"
  let ?I = "once (apply_options \<lparr>Decoder = Some \<lparr>optStrict = False\<rparr>\<rparr>
               (createParser (newDecoder [] EOF)))"
  define p1 where "p1 = projr (missingDeclaration ?P)"
  have md: "missingDeclaration ?P = Inr p1"
    by (simp add: p1_def missingDeclaration_def once_def createParser_def newDecoder_def
        addChild_def setParent_def setFirstChild_def setLastChild_def newNode_def Let_def)
  have ub: "bindNamespaces (p_level p1) (p_space2prefix p1) [] (Space ?nm) = None"
    by (simp add: p1_def missingDeclaration_def once_def createParser_def newDecoder_def
        addChild_def setParent_def setFirstChild_def setLastChild_def newNode_def Let_def
        bindNamespaces_def)
  have ne: "Space ?nm \<noteq> []" by simp
  have s: "Strict (p_decoder ?P)" by (simp add: once_def createParser_def newDecoder_def)
  from strict_namespace[OF md ub ne, of 0] s
  have one: "\<exists>p'. startElement ?nm [] ?P 0 = Return (Inl (NamespaceMissing ''myns'')) p'"
    by simp
  have "case steps ?pre ?I 0 of
          Continue q c0 \<Rightarrow> c0 = 0 \<and> p_level q = 2 \<and> length (p_heap q) = 3 \<and>
             p_space2prefix q ''myns'' = None \<and> \<not> Strict (p_decoder q)
        | Return r q \<Rightarrow> False"
    by code_simp
  then obtain q c0 where run: "steps ?pre ?I 0 = Continue q c0" and q: "c0 = 0" "p_level q = 2"
    "length (p_heap q) = 3" "p_space2prefix q ''myns'' = None" "\<not> Strict (p_decoder q)"
    by (cases "steps ?pre ?I 0") simp_all
  let ?p0 = "q\<lparr>p_cache := ''<myns:child>''\<rparr>"
  have md2: "missingDeclaration ?p0 = Inr ?p0" using q(2) by (simp add: missingDeclaration_def)
  have ub2: "bindNamespaces (p_level ?p0) (p_space2prefix ?p0) [] (Space ?nm) = None"
    using q(4) by (simp add: bindNamespaces_def)
  have n: "nesting 0 (map fst ?pre)" by simp
  have t: "\<not> Strict (p_decoder ?p0)" using q(5) by simp
  from strict_namespace[OF md2 ub2 ne, of 0 ?pre "\<lparr>Decoder = Some \<lparr>optStrict = False\<rparr>\<rparr>"
      "newDecoder [] EOF" q c0 "''<myns:child>''"] t n run
  have "\<exists>p'. startElement ?nm [] ?p0 0 = Continue p' 0 \<and>
               p_level p' = p_level ?p0 + 1 \<and> p_prev p' = Some (length (p_heap ?p0)) \<and>
               Type (p_heap p' ! length (p_heap ?p0)) = ElementNode \<and>
               Data (p_heap p' ! length (p_heap ?p0)) = Local ?nm \<and>
               NamespaceURI (p_heap p' ! length (p_heap ?p0)) = Space ?nm"
    by blast
  with q have two: "\<exists>p'. startElement ?nm [] ?p0 0 = Continue p' 0 \<and>
             p_level p' = 3 \<and> p_prev p' = Some 3 \<and>
             Type (p_heap p' ! 3) = ElementNode \<and> Data (p_heap p' ! 3) = ''child'' \<and>
             NamespaceURI (p_heap p' ! 3) = ''myns''"
    by simp
  from one run two show ?thesis by blast
qed

section \<open>The missing declaration\<close>






end
